theory Spec2Isabelle
  imports Main "HOL-Library.Word"
begin

section \<open>JavaScript values\<close>

text \<open>
  The application (\<^verbatim>\<open>src/archive/App.jsx\<close>) keeps an array of event records in React
  state, mirrors it into \<^verbatim>\<open>localStorage\<close> as JSON and exchanges it with files as JSON.
  Its records are plain JavaScript objects, and the import handler installs whatever
  array \<^verbatim>\<open>JSON.parse\<close> returns, so the store is modelled as a list of arbitrary
  JavaScript values rather than as a typed record.

  A JavaScript string is the list of its 16-bit code units.
\<close>

type_synonym cunit = "16 word"
type_synonym jstring = "cunit list"

definition js :: "string \<Rightarrow> jstring" where
  "js s = map (\<lambda>c. of_nat (of_char c)) s"

text \<open>
  Numbers. IEEE doubles are abstracted by exact decimals: a finite non-zero number is
  \<open>Dec neg ds n\<close>, with \<open>ds\<close> its significant decimal digits (as digit characters, no
  leading and no trailing zero) and \<open>n\<close> the position of the decimal point, so that its
  value is \<open>0.ds \<times> 10\<^sup>n\<close>. This is the triple (digits, \<open>k\<close>, \<open>n\<close>) that the language
  standard's \<^verbatim>\<open>Number::toString\<close> prints from. Rounding to 53 bits and overflow to
  infinity are not represented. \<open>Zero True\<close> is the negative zero.
\<close>

datatype jsnum = NaN | Infinity bool | Zero bool | Dec bool jstring int

datatype jsval =
    JUndefined
  | JNull
  | JBool bool
  | JNum jsnum
  | JStr jstring
  | JArr "jsval list"
  | JObj "(jstring \<times> jsval) list"

text \<open>
  An object is the list of its own properties in the order of their creation, which is
  the order of enumeration except for property names that are array indices (the
  language enumerates those first; no record of the application has such a name).
  Objects carry no identity: the model does not distinguish two objects with the same
  properties.
\<close>

datatype error = TypeError

subsection \<open>Digits\<close>

definition is_digit :: "cunit \<Rightarrow> bool" where
  "is_digit c = (0x30 \<le> c \<and> c \<le> 0x39)"

definition digit_char :: "nat \<Rightarrow> cunit" where
  "digit_char d = of_nat (48 + d)"

definition digit_val :: "cunit \<Rightarrow> nat" where
  "digit_val c = unat c - 48"

function decimal :: "nat \<Rightarrow> jstring" where
  "decimal n = (if n < 10 then [digit_char n] else decimal (n div 10) @ [digit_char (n mod 10)])"
  by pat_completeness auto
termination
  by (relation "measure id") auto

declare decimal.simps [simp del]

definition nat_of_digits :: "jstring \<Rightarrow> nat" where
  "nat_of_digits ds = foldl (\<lambda>a c. 10 * a + digit_val c) 0 ds"

definition strip0 :: "jstring \<Rightarrow> jstring" where
  "strip0 = dropWhile (\<lambda>c. c = 0x30)"

text \<open>
  The number denoted by the digits \<open>ip\<close> before the decimal point, the digits \<open>fp\<close>
  after it and the decimal exponent \<open>e\<close>, with the sign \<open>neg\<close>.
\<close>

definition mk_num :: "bool \<Rightarrow> jstring \<Rightarrow> jstring \<Rightarrow> int \<Rightarrow> jsnum" where
  "mk_num neg ip fp e =
     (let ds = strip0 (ip @ fp) in
      if ds = [] then Zero neg
      else Dec neg (rev (strip0 (rev ds))) (int (length ds) + e - int (length fp)))"

subsection \<open>\<^verbatim>\<open>Number::toString\<close>\<close>

definition pos_text :: "jstring \<Rightarrow> int \<Rightarrow> jstring" where
  "pos_text ds n =
     (let k = int (length ds) in
      if k \<le> n \<and> n \<le> 21 then ds @ replicate (nat (n - k)) 0x30
      else if 0 < n \<and> n \<le> 21 then take (nat n) ds @ [0x2E] @ drop (nat n) ds
      else if - 6 < n \<and> n \<le> 0 then [0x30, 0x2E] @ replicate (nat (- n)) 0x30 @ ds
      else (case ds of [] \<Rightarrow> [] | d # r \<Rightarrow> if r = [] then [d] else d # 0x2E # r)
           @ [0x65, if n - 1 < 0 then 0x2D else 0x2B] @ decimal (nat \<bar>n - 1\<bar>))"

fun Number_toString :: "jsnum \<Rightarrow> jstring" where
  "Number_toString NaN = js ''NaN''"
| "Number_toString (Infinity neg) = (if neg then js ''-Infinity'' else js ''Infinity'')"
| "Number_toString (Zero neg) = js ''0''"
| "Number_toString (Dec neg ds n) = (if neg then [0x2D] else []) @ pos_text ds n"

fun is_finite :: "jsnum \<Rightarrow> bool" where
  "is_finite NaN = False"
| "is_finite (Infinity neg) = False"
| "is_finite (Zero neg) = True"
| "is_finite (Dec neg ds n) = True"

subsection \<open>\<^verbatim>\<open>JSON.stringify\<close>\<close>

definition hexdigit :: "nat \<Rightarrow> cunit" where
  "hexdigit d = (if d < 10 then of_nat (48 + d) else of_nat (87 + d))"

definition UnicodeEscape :: "cunit \<Rightarrow> jstring" where
  "UnicodeEscape c =
     (let n = unat c in
      [0x5C, 0x75, hexdigit (n div 4096), hexdigit (n div 256 mod 16),
       hexdigit (n div 16 mod 16), hexdigit (n mod 16)])"

definition is_high :: "cunit \<Rightarrow> bool" where
  "is_high c = (0xD800 \<le> c \<and> c \<le> 0xDBFF)"

definition is_low :: "cunit \<Rightarrow> bool" where
  "is_low c = (0xDC00 \<le> c \<and> c \<le> 0xDFFF)"

text \<open>
  \<^verbatim>\<open>QuoteJSONString\<close>: the short escapes, \<^verbatim>\<open>\uXXXX\<close> for the other control characters
  and for a surrogate that is not part of a pair, every other code unit as it is.
\<close>

fun quote_chars :: "jstring \<Rightarrow> jstring" where
  "quote_chars [] = []"
| "quote_chars (c # cs) =
     (if c = 0x08 then [0x5C, 0x62] @ quote_chars cs
      else if c = 0x09 then [0x5C, 0x74] @ quote_chars cs
      else if c = 0x0A then [0x5C, 0x6E] @ quote_chars cs
      else if c = 0x0C then [0x5C, 0x66] @ quote_chars cs
      else if c = 0x0D then [0x5C, 0x72] @ quote_chars cs
      else if c = 0x22 then [0x5C, 0x22] @ quote_chars cs
      else if c = 0x5C then [0x5C, 0x5C] @ quote_chars cs
      else if c < 0x20 then UnicodeEscape c @ quote_chars cs
      else if is_high c then
        (case cs of
           [] \<Rightarrow> UnicodeEscape c
         | d # ds \<Rightarrow>
             if is_low d then c # d # quote_chars ds
             else UnicodeEscape c @ quote_chars cs)
      else if is_low c then UnicodeEscape c @ quote_chars cs
      else c # quote_chars cs)"

definition QuoteJSONString :: "jstring \<Rightarrow> jstring" where
  "QuoteJSONString s = [0x22] @ quote_chars s @ [0x22]"

fun join :: "jstring \<Rightarrow> jstring list \<Rightarrow> jstring" where
  "join sep [] = []"
| "join sep [t] = t"
| "join sep (t # u # ts) = t @ sep @ join sep (u # ts)"

text \<open>
  The common tail of \<^verbatim>\<open>SerializeJSONObject\<close> and \<^verbatim>\<open>SerializeJSONArray\<close>: \<open>partial\<close> are
  the serialized members, \<open>stepback\<close> the indentation of the enclosing level and
  \<open>gap\<close> the indentation unit (empty when \<^verbatim>\<open>JSON.stringify\<close> has no \<^verbatim>\<open>space\<close> argument).
\<close>

definition wrap :: "jstring \<Rightarrow> jstring \<Rightarrow> cunit \<Rightarrow> cunit \<Rightarrow> jstring list \<Rightarrow> jstring" where
  "wrap gap stepback l r partial =
     (if partial = [] then [l, r]
      else if gap = [] then [l] @ join [0x2C] partial @ [r]
      else [l, 0x0A] @ (stepback @ gap) @ join ([0x2C, 0x0A] @ (stepback @ gap)) partial
           @ [0x0A] @ stepback @ [r])"

text \<open>
  \<^verbatim>\<open>SerializeJSONProperty\<close> on a value; \<open>None\<close> is the result \<^verbatim>\<open>undefined\<close>. A number that
  is not finite is written \<^verbatim>\<open>null\<close>; an array element whose serialization is
  \<^verbatim>\<open>undefined\<close> is written \<^verbatim>\<open>null\<close>; such an object property is left out.
\<close>

fun ser :: "jstring \<Rightarrow> jstring \<Rightarrow> jsval \<Rightarrow> jstring option"
  and ser_elems :: "jstring \<Rightarrow> jstring \<Rightarrow> jsval list \<Rightarrow> jstring list"
  and ser_members :: "jstring \<Rightarrow> jstring \<Rightarrow> (jstring \<times> jsval) list \<Rightarrow> jstring list"
where
  "ser gap ind JUndefined = None"
| "ser gap ind JNull = Some (js ''null'')"
| "ser gap ind (JBool b) = Some (if b then js ''true'' else js ''false'')"
| "ser gap ind (JNum x) = Some (if is_finite x then Number_toString x else js ''null'')"
| "ser gap ind (JStr s) = Some (QuoteJSONString s)"
| "ser gap ind (JArr xs) = Some (wrap gap ind 0x5B 0x5D (ser_elems gap (ind @ gap) xs))"
| "ser gap ind (JObj ps) = Some (wrap gap ind 0x7B 0x7D (ser_members gap (ind @ gap) ps))"
| "ser_elems gap ind [] = []"
| "ser_elems gap ind (x # xs) =
     (case ser gap ind x of None \<Rightarrow> js ''null'' | Some t \<Rightarrow> t) # ser_elems gap ind xs"
| "ser_members gap ind [] = []"
| "ser_members gap ind (p # ps) =
     (case ser gap ind (snd p) of
        None \<Rightarrow> ser_members gap ind ps
      | Some t \<Rightarrow>
          (QuoteJSONString (fst p) @ [0x3A] @ (if gap = [] then [] else [0x20]) @ t)
          # ser_members gap ind ps)"

text \<open>\<^verbatim>\<open>JSON.stringify(value, null, space)\<close> for a numeric \<open>space\<close>.\<close>

definition JSON_stringify :: "nat \<Rightarrow> jsval \<Rightarrow> jstring option" where
  "JSON_stringify space v = ser (replicate (min 10 space) 0x20) [] v"

subsection \<open>\<^verbatim>\<open>JSON.parse\<close>: the tokens\<close>

datatype token =
    TLBracket | TRBracket | TLBrace | TRBrace | TComma | TColon
  | TStr jstring | TNum jsnum | TTrue | TFalse | TNull

definition is_json_ws :: "cunit \<Rightarrow> bool" where
  "is_json_ws c = (c = 0x09 \<or> c = 0x0A \<or> c = 0x0D \<or> c = 0x20)"

definition hexval :: "cunit \<Rightarrow> nat option" where
  "hexval c =
     (if 0x30 \<le> c \<and> c \<le> 0x39 then Some (unat c - 48)
      else if 0x61 \<le> c \<and> c \<le> 0x66 then Some (unat c - 87)
      else if 0x41 \<le> c \<and> c \<le> 0x46 then Some (unat c - 55)
      else None)"

definition hex4 :: "cunit \<Rightarrow> cunit \<Rightarrow> cunit \<Rightarrow> cunit \<Rightarrow> cunit option" where
  "hex4 a b c d =
     (case (hexval a, hexval b, hexval c, hexval d) of
        (Some x, Some y, Some z, Some w) \<Rightarrow> Some (of_nat (((x * 16 + y) * 16 + z) * 16 + w))
      | _ \<Rightarrow> None)"

definition unescape :: "cunit \<Rightarrow> cunit option" where
  "unescape e =
     (if e = 0x22 then Some 0x22
      else if e = 0x5C then Some 0x5C
      else if e = 0x2F then Some 0x2F
      else if e = 0x62 then Some 0x08
      else if e = 0x66 then Some 0x0C
      else if e = 0x6E then Some 0x0A
      else if e = 0x72 then Some 0x0D
      else if e = 0x74 then Some 0x09
      else None)"

definition cons_fst :: "'a \<Rightarrow> ('a list \<times> 'b) option \<Rightarrow> ('a list \<times> 'b) option" where
  "cons_fst c r = (case r of None \<Rightarrow> None | Some (s, rest) \<Rightarrow> Some (c # s, rest))"

text \<open>
  The characters of a string literal, read from just after the opening quote: the
  string denoted and the text after the closing quote.
\<close>

fun scan_string :: "jstring \<Rightarrow> (jstring \<times> jstring) option" where
  "scan_string [] = None"
| "scan_string (c # cs) =
     (if c = 0x22 then Some ([], cs)
      else if c = 0x5C then
        (case cs of
           [] \<Rightarrow> None
         | e # es \<Rightarrow>
             if e = 0x75 then
               (case es of
                  h1 # h2 # h3 # h4 # r \<Rightarrow>
                    (case hex4 h1 h2 h3 h4 of
                       None \<Rightarrow> None
                     | Some u \<Rightarrow> cons_fst u (scan_string r))
                | _ \<Rightarrow> None)
             else
               (case unescape e of
                  None \<Rightarrow> None
                | Some u \<Rightarrow> cons_fst u (scan_string es)))
      else if c < 0x20 then None
      else cons_fst c (scan_string cs))"

text \<open>
  A number literal: an optional minus, the integer digits (no superfluous leading zero),
  an optional fraction and an optional exponent.
\<close>

definition scan_exponent :: "jstring \<Rightarrow> (int \<times> jstring) option" where
  "scan_exponent s =
     (case s of
        [] \<Rightarrow> Some (0, s)
      | c # cs \<Rightarrow>
          if c = 0x65 \<or> c = 0x45 then
            (let neg = (case cs of [] \<Rightarrow> False | d # _ \<Rightarrow> d = 0x2D);
                 t = (case cs of [] \<Rightarrow> [] | d # ds \<Rightarrow> if d = 0x2D \<or> d = 0x2B then ds else cs);
                 ed = takeWhile is_digit t
             in if ed = [] then None
                else Some ((if neg then - int (nat_of_digits ed) else int (nat_of_digits ed)),
                           dropWhile is_digit t))
          else Some (0, s))"

definition scan_fraction :: "jstring \<Rightarrow> (jstring \<times> jstring) option" where
  "scan_fraction s =
     (case s of
        [] \<Rightarrow> Some ([], s)
      | c # cs \<Rightarrow>
          if c = 0x2E then
            (if takeWhile is_digit cs = [] then None
             else Some (takeWhile is_digit cs, dropWhile is_digit cs))
          else Some ([], s))"

definition scan_unsigned :: "bool \<Rightarrow> jstring \<Rightarrow> (jsnum \<times> jstring) option" where
  "scan_unsigned neg s =
     (let ip = takeWhile is_digit s
      in if ip = [] \<or> (hd ip = 0x30 \<and> tl ip \<noteq> []) then None
         else
           (case scan_fraction (dropWhile is_digit s) of
              None \<Rightarrow> None
            | Some (fp, r2) \<Rightarrow>
                (case scan_exponent r2 of
                   None \<Rightarrow> None
                 | Some (e, r3) \<Rightarrow> Some (mk_num neg ip fp e, r3))))"

definition scan_number :: "jstring \<Rightarrow> (jsnum \<times> jstring) option" where
  "scan_number s =
     (case s of
        [] \<Rightarrow> None
      | c # cs \<Rightarrow> if c = 0x2D then scan_unsigned True cs else scan_unsigned False s)"

lemma cons_fst_length:
  "cons_fst c r = Some (s, rest) \<Longrightarrow> \<exists>s'. r = Some (s', rest)"
  by (auto simp: cons_fst_def split: option.splits)

lemma scan_string_length:
  "scan_string cs = Some (s, r) \<Longrightarrow> length r < length cs"
proof (induction cs arbitrary: s r rule: scan_string.induct)
  case 1
  then show ?case by simp
next
  case (2 c cs)
  show ?case
  proof (cases "c = 0x22")
    case True
    with "2.prems" show ?thesis by simp
  next
    case q: False
    show ?thesis
    proof (cases "c = 0x5C")
      case False
      with q "2.prems" have lt: "\<not> c < 0x20" and cf: "cons_fst c (scan_string cs) = Some (s, r)"
        by (auto split: if_splits)
      from cons_fst_length [OF cf] obtain s' where "scan_string cs = Some (s', r)" by blast
      with "2.IH"(3) [OF q False lt] show ?thesis by fastforce
    next
      case b: True
      show ?thesis
      proof (cases cs)
        case Nil
        with q b "2.prems" show ?thesis by simp
      next
        case (Cons e es)
        show ?thesis
        proof (cases "e = 0x75")
          case False
          with q b Cons "2.prems" obtain u where u: "unescape e = Some u"
            and cf: "cons_fst u (scan_string es) = Some (s, r)"
            by (auto split: option.splits)
          from cons_fst_length [OF cf] obtain s' where "scan_string es = Some (s', r)" by blast
          with "2.IH"(2) [OF q b Cons False u] Cons show ?thesis by fastforce
        next
          case True
          with q b Cons "2.prems" obtain h1 h2 h3 h4 t u where es: "es = h1 # h2 # h3 # h4 # t"
            and u: "hex4 h1 h2 h3 h4 = Some u"
            and cf: "cons_fst u (scan_string t) = Some (s, r)"
            by (auto split: list.splits option.splits)
          from cons_fst_length [OF cf] obtain s' where "scan_string t = Some (s', r)" by blast
          with "2.IH"(1) [OF q b Cons True es refl refl refl u] Cons es show ?thesis
            by fastforce
        qed
      qed
    qed
  qed
qed

lemma scan_exponent_length:
  "scan_exponent s = Some (e, r) \<Longrightarrow> length r \<le> length s"
  unfolding scan_exponent_def
  by (auto simp: Let_def split: list.splits if_splits
      intro: order_trans [OF length_dropWhile_le] le_SucI order_trans [OF length_dropWhile_le le_SucI])

lemma scan_fraction_length:
  "scan_fraction s = Some (fp, r) \<Longrightarrow> length r \<le> length s"
  unfolding scan_fraction_def
  by (auto split: list.splits if_splits intro: le_SucI length_dropWhile_le)

lemma dropWhile_shorter:
  "takeWhile P xs \<noteq> [] \<Longrightarrow> length (dropWhile P xs) < length xs"
  by (cases xs) (auto split: if_splits intro: le_imp_less_Suc length_dropWhile_le)

lemma scan_unsigned_length:
  assumes "scan_unsigned neg s = Some (x, r)"
  shows "length r < length s"
proof -
  from assms obtain fp r2 e where ip: "takeWhile is_digit s \<noteq> []"
    and fr: "scan_fraction (dropWhile is_digit s) = Some (fp, r2)"
    and ex: "scan_exponent r2 = Some (e, r)"
    unfolding scan_unsigned_def Let_def
    by (auto split: option.splits if_splits)
  have "length r \<le> length r2" using scan_exponent_length [OF ex] .
  also have "\<dots> \<le> length (dropWhile is_digit s)" using scan_fraction_length [OF fr] .
  also have "\<dots> < length s" using dropWhile_shorter [OF ip] .
  finally show ?thesis .
qed

lemma scan_number_length:
  "scan_number s = Some (x, r) \<Longrightarrow> length r < length s"
  unfolding scan_number_def
  by (auto split: list.splits if_splits dest: scan_unsigned_length)

function lex :: "jstring \<Rightarrow> token list option" where
  "lex [] = Some []"
| "lex (c # cs) =
     (if is_json_ws c then lex cs
      else if c = 0x5B then map_option (Cons TLBracket) (lex cs)
      else if c = 0x5D then map_option (Cons TRBracket) (lex cs)
      else if c = 0x7B then map_option (Cons TLBrace) (lex cs)
      else if c = 0x7D then map_option (Cons TRBrace) (lex cs)
      else if c = 0x2C then map_option (Cons TComma) (lex cs)
      else if c = 0x3A then map_option (Cons TColon) (lex cs)
      else if c = 0x22 then
        (case scan_string cs of
           None \<Rightarrow> None
         | Some (s, r) \<Rightarrow> map_option (Cons (TStr s)) (lex r))
      else if c = 0x2D \<or> is_digit c then
        (case scan_number (c # cs) of
           None \<Rightarrow> None
         | Some (x, r) \<Rightarrow> map_option (Cons (TNum x)) (lex r))
      else if take 4 (c # cs) = js ''true'' then map_option (Cons TTrue) (lex (drop 3 cs))
      else if take 5 (c # cs) = js ''false'' then map_option (Cons TFalse) (lex (drop 4 cs))
      else if take 4 (c # cs) = js ''null'' then map_option (Cons TNull) (lex (drop 3 cs))
      else None)"
  by pat_completeness auto
termination
proof (relation "measure length")
  show "wf (measure length)" by simp
qed (auto dest: scan_string_length scan_number_length)

declare lex.simps(2) [simp del]

subsection \<open>\<^verbatim>\<open>JSON.parse\<close>: the grammar\<close>

text \<open>
  The value is built by a pushdown automaton over the tokens. A frame is a container
  under construction: an array with the elements read so far, an object with the
  properties read so far, or such an object with the key whose value is awaited.
\<close>

datatype frame =
    FArr "jsval list"
  | FObj "(jstring \<times> jsval) list"
  | FKey "(jstring \<times> jsval) list" jstring

datatype pmode = PValue | PValueOrEnd | PKeyOrEnd | PKey | PColon | PNext | PDone jsval

text \<open>
  Defining the property \<open>k\<close>: an existing property keeps its place and takes the new
  value, a new one is added last.
\<close>

fun obj_put :: "(jstring \<times> jsval) list \<Rightarrow> jstring \<Rightarrow> jsval \<Rightarrow> (jstring \<times> jsval) list" where
  "obj_put [] k v = [(k, v)]"
| "obj_put (p # ps) k v = (if fst p = k then (k, v) # ps else p # obj_put ps k v)"

fun complete :: "jsval \<Rightarrow> frame list \<Rightarrow> (pmode \<times> frame list) option" where
  "complete v [] = Some (PDone v, [])"
| "complete v (FArr acc # st) = Some (PNext, FArr (acc @ [v]) # st)"
| "complete v (FKey ps k # st) = Some (PNext, FObj (obj_put ps k v) # st)"
| "complete v (FObj ps # st) = None"

fun start_value :: "token \<Rightarrow> frame list \<Rightarrow> (pmode \<times> frame list) option" where
  "start_value TNull st = complete JNull st"
| "start_value TTrue st = complete (JBool True) st"
| "start_value TFalse st = complete (JBool False) st"
| "start_value (TNum x) st = complete (JNum x) st"
| "start_value (TStr s) st = complete (JStr s) st"
| "start_value TLBracket st = Some (PValueOrEnd, FArr [] # st)"
| "start_value TLBrace st = Some (PKeyOrEnd, FObj [] # st)"
| "start_value t st = None"

fun pstep :: "pmode \<times> frame list \<Rightarrow> token \<Rightarrow> (pmode \<times> frame list) option" where
  "pstep (PValue, st) t = start_value t st"
| "pstep (PValueOrEnd, st) t =
     (case (t, st) of
        (TRBracket, FArr acc # st') \<Rightarrow> complete (JArr acc) st'
      | _ \<Rightarrow> start_value t st)"
| "pstep (PKeyOrEnd, st) t =
     (case (t, st) of
        (TRBrace, FObj ps # st') \<Rightarrow> complete (JObj ps) st'
      | (TStr k, FObj ps # st') \<Rightarrow> Some (PColon, FKey ps k # st')
      | _ \<Rightarrow> None)"
| "pstep (PKey, st) t =
     (case (t, st) of
        (TStr k, FObj ps # st') \<Rightarrow> Some (PColon, FKey ps k # st')
      | _ \<Rightarrow> None)"
| "pstep (PColon, st) t = (case t of TColon \<Rightarrow> Some (PValue, st) | _ \<Rightarrow> None)"
| "pstep (PNext, st) t =
     (case (t, st) of
        (TComma, FArr acc # st') \<Rightarrow> Some (PValue, st)
      | (TRBracket, FArr acc # st') \<Rightarrow> complete (JArr acc) st'
      | (TComma, FObj ps # st') \<Rightarrow> Some (PKey, st)
      | (TRBrace, FObj ps # st') \<Rightarrow> complete (JObj ps) st'
      | _ \<Rightarrow> None)"
| "pstep (PDone v, st) t = None"

fun prun :: "pmode \<times> frame list \<Rightarrow> token list \<Rightarrow> jsval option" where
  "prun (m, st) [] = (case m of PDone v \<Rightarrow> Some v | _ \<Rightarrow> None)"
| "prun c (t # ts) = (case pstep c t of None \<Rightarrow> None | Some c' \<Rightarrow> prun c' ts)"

text \<open>\<^verbatim>\<open>JSON.parse(text)\<close>; \<open>None\<close> is the \<^verbatim>\<open>SyntaxError\<close> it throws.\<close>

definition JSON_parse :: "jstring \<Rightarrow> jsval option" where
  "JSON_parse text = (case lex text of None \<Rightarrow> None | Some ts \<Rightarrow> prun (PValue, []) ts)"

subsection \<open>Operators and built-ins the handlers use\<close>

text \<open>\<^verbatim>\<open>ToBoolean\<close>: the test of \<^verbatim>\<open>!x\<close>, \<^verbatim>\<open>x || y\<close> and \<^verbatim>\<open>if (x)\<close>.\<close>

fun truthy :: "jsval \<Rightarrow> bool" where
  "truthy JUndefined = False"
| "truthy JNull = False"
| "truthy (JBool b) = b"
| "truthy (JNum NaN) = False"
| "truthy (JNum (Zero neg)) = False"
| "truthy (JNum x) = True"
| "truthy (JStr s) = (s \<noteq> [])"
| "truthy (JArr xs) = True"
| "truthy (JObj ps) = True"

fun num_eq :: "jsnum \<Rightarrow> jsnum \<Rightarrow> bool" where
  "num_eq NaN y = False"
| "num_eq x NaN = False"
| "num_eq (Zero a) (Zero b) = True"
| "num_eq x y = (x = y)"

text \<open>
  \<^verbatim>\<open>x === y\<close>. On two objects or arrays the operator compares identities, which the
  values of this model do not carry; they are compared by their contents. So
  \<open>strict_eq\<close> is the operator whenever one of the two values is not an object or an
  array, and it may hold of two objects or arrays that the operator tells apart.
\<close>

fun strict_eq :: "jsval \<Rightarrow> jsval \<Rightarrow> bool" where
  "strict_eq (JNum x) (JNum y) = num_eq x y"
| "strict_eq a b = (a = b)"

definition obj_get :: "(jstring \<times> jsval) list \<Rightarrow> jstring \<Rightarrow> jsval" where
  "obj_get ps k = (case map_of ps k of None \<Rightarrow> JUndefined | Some v \<Rightarrow> v)"

text \<open>
  \<^verbatim>\<open>item.id\<close>: a \<^verbatim>\<open>TypeError\<close> on \<^verbatim>\<open>null\<close> and \<^verbatim>\<open>undefined\<close>, the own property of an
  object, and \<^verbatim>\<open>undefined\<close> on the other values (no prototype defines \<^verbatim>\<open>id\<close>).
\<close>

fun get_id :: "jsval \<Rightarrow> error + jsval" where
  "get_id JUndefined = Inl TypeError"
| "get_id JNull = Inl TypeError"
| "get_id (JObj ps) = Inr (obj_get ps (js ''id''))"
| "get_id v = Inr JUndefined"

text \<open>The own enumerable properties that an object spread \<^verbatim>\<open>{...x}\<close> copies.\<close>

fun own_props :: "jsval \<Rightarrow> (jstring \<times> jsval) list" where
  "own_props (JObj ps) = ps"
| "own_props (JArr xs) = zip (map decimal [0..<length xs]) xs"
| "own_props (JStr s) = zip (map decimal [0..<length s]) (map (\<lambda>c. JStr [c]) s)"
| "own_props v = []"

text \<open>The properties of an object literal, defined from left to right.\<close>

definition put_all ::
  "(jstring \<times> jsval) list \<Rightarrow> (jstring \<times> jsval) list \<Rightarrow> (jstring \<times> jsval) list" where
  "put_all ps kvs = foldl (\<lambda>a kv. obj_put a (fst kv) (snd kv)) ps kvs"

definition is_str_ws :: "cunit \<Rightarrow> bool" where
  "is_str_ws c =
     (c = 0x09 \<or> c = 0x0A \<or> c = 0x0B \<or> c = 0x0C \<or> c = 0x0D \<or> c = 0x20 \<or> c = 0xA0
      \<or> c = 0x1680 \<or> (0x2000 \<le> c \<and> c \<le> 0x200A) \<or> c = 0x2028 \<or> c = 0x2029
      \<or> c = 0x202F \<or> c = 0x205F \<or> c = 0x3000 \<or> c = 0xFEFF)"

text \<open>
  \<^verbatim>\<open>parseFloat\<close>: leading white space is skipped, then the longest prefix that is a
  decimal literal is read; \<^verbatim>\<open>NaN\<close> when there is none.
\<close>

definition parseFloat :: "jstring \<Rightarrow> jsnum" where
  "parseFloat s =
     (let t = dropWhile is_str_ws s;
          neg = (case t of [] \<Rightarrow> False | c # _ \<Rightarrow> c = 0x2D);
          u = (case t of [] \<Rightarrow> [] | c # cs \<Rightarrow> if c = 0x2D \<or> c = 0x2B then cs else t)
      in if take 8 u = js ''Infinity'' then Infinity neg
         else
           (let ip = takeWhile is_digit u;
                r1 = dropWhile is_digit u;
                dot = (case r1 of [] \<Rightarrow> False | c # _ \<Rightarrow> c = 0x2E);
                fp = (if dot then takeWhile is_digit (tl r1) else []);
                r2 = (if dot then dropWhile is_digit (tl r1) else r1)
            in if ip = [] \<and> fp = [] then NaN
               else mk_num neg ip fp (case scan_exponent r2 of None \<Rightarrow> 0 | Some (e, _) \<Rightarrow> e)))"

section \<open>The application\<close>

text \<open>
  The state of the component \<^verbatim>\<open>App\<close>: its three React state variables, the ref
  \<^verbatim>\<open>pendingSelection\<close>, and what it has done to its surroundings: the item set last
  accepted by the timeline widget, the deferred selections it has scheduled (the id to
  select and the \<^verbatim>\<open>items\<close> of the render that scheduled it), the contents of
  \<^verbatim>\<open>localStorage\<close>, the alerts raised and the files offered for download. \<open>mounted\<close>
  says that the page is on screen: React removes the whole component once an effect
  has thrown, since the source has no error boundary. The timeline
  and map widgets, the file reader and the clock are outside: what they deliver
  (the event looked up for a click, the text of a file, \<^verbatim>\<open>Date.now()\<close>, whether a call
  into the timeline returns) is an argument of the function that receives it.
\<close>

record app_state =
  items :: "jsval list"
  selectedEvent :: jsval
  isEditing :: bool
  pendingSelection :: jsval
  timeline_items :: "jsval list"
  timeouts :: "(jsval \<times> jsval list) list"
  localStorage :: "jstring \<Rightarrow> jstring option"
  alerts :: "jstring list"
  downloads :: "jstring list"
  mounted :: bool

text \<open>The fields of the add and edit forms, as the strings their inputs hold.\<close>

record form =
  f_title :: jstring
  f_start :: jstring
  f_end :: jstring
  f_description :: jstring
  f_image :: jstring
  f_locationName :: jstring
  f_lat :: jstring
  f_lng :: jstring

definition LOCAL_STORAGE_KEY :: jstring where
  "LOCAL_STORAGE_KEY = js ''timeline-events''"

text \<open>What becomes of a \<^verbatim>\<open>JSON.stringify\<close> result where a string is expected.\<close>

definition to_text :: "jstring option \<Rightarrow> jstring" where
  "to_text r = (case r of None \<Rightarrow> js ''undefined'' | Some t \<Rightarrow> t)"

text \<open>The values on which \<^verbatim>\<open>item.id\<close> throws, and those that \<^verbatim>\<open>===\<close> compares by value.\<close>

fun nullish :: "jsval \<Rightarrow> bool" where
  "nullish JUndefined = True"
| "nullish JNull = True"
| "nullish v = False"

fun primitive :: "jsval \<Rightarrow> bool" where
  "primitive (JArr xs) = False"
| "primitive (JObj ps) = False"
| "primitive v = True"

text \<open>
  The timeline widget. The calls \<^verbatim>\<open>new Timeline(container, items, options)\<close> (line 36) and
  \<^verbatim>\<open>timelineInstance.current.setItems(items)\<close> (line 58) hand the \<^verbatim>\<open>items\<close> array to a
  library that is not part of the source. The call has two outcomes, and which of them
  happens is an input of the model:

  \<^item> \<open>Throws\<close>: the call throws. The widget does so, among other cases, when two
    records carry the same id and when a record has no \<^verbatim>\<open>start\<close>.

  \<^item> \<open>Returns gen\<close>: the call returns. Before that the widget has written an id of its
    own making into every record whose \<^verbatim>\<open>id\<close> is \<^verbatim>\<open>null\<close> or \<^verbatim>\<open>undefined\<close>. It writes
    into the objects of the \<^verbatim>\<open>items\<close> array themselves, so the store holds these ids
    from then on. \<open>gen k\<close> is the \<open>k\<close>-th id the widget makes during the call.
    Elements of the array that are not records are left as they are.
\<close>

datatype widget_reply = Throws | Returns "nat \<Rightarrow> jstring"

fun lacks_id :: "jsval \<Rightarrow> bool" where
  "lacks_id (JObj ps) = nullish (obj_get ps (js ''id''))"
| "lacks_id v = False"

fun write_id :: "jstring \<Rightarrow> jsval \<Rightarrow> jsval" where
  "write_id i (JObj ps) = JObj (obj_put ps (js ''id'') (JStr i))"
| "write_id i v = v"

fun write_ids :: "(nat \<Rightarrow> jstring) \<Rightarrow> nat \<Rightarrow> jsval list \<Rightarrow> jsval list" where
  "write_ids gen k [] = []"
| "write_ids gen k (x # xs) =
     (if lacks_id x then write_id (gen k) x # write_ids gen (Suc k) xs
      else x # write_ids gen k xs)"

text \<open>
  The timeline effect (lines 56-76), when \<^verbatim>\<open>setItems\<close> returns: the timeline has the
  items, with the ids it has written into them, and a pending selection is turned into
  a deferred one, whose callback keeps the \<^verbatim>\<open>items\<close> of this render.
\<close>

definition sync_timeline :: "(nat \<Rightarrow> jstring) \<Rightarrow> app_state \<Rightarrow> app_state" where
  "sync_timeline gen s =
     (let s1 = s\<lparr>items := write_ids gen 0 (items s),
                 timeline_items := write_ids gen 0 (items s)\<rparr> in
      if truthy (pendingSelection s1)
      then s1\<lparr>pendingSelection := JNull,
              timeouts := timeouts s1 @ [(pendingSelection s1, items s1)]\<rparr>
      else s1)"

text \<open>The persistence effect (lines 78-80).\<close>

definition persist :: "app_state \<Rightarrow> app_state" where
  "persist s =
     s\<lparr>localStorage :=
         (localStorage s)(LOCAL_STORAGE_KEY \<mapsto> to_text (JSON_stringify 0 (JArr (items s))))\<rparr>"

text \<open>
  The two effects that depend on \<^verbatim>\<open>items\<close> run, in the order of their declaration,
  after every render in which \<^verbatim>\<open>items\<close> is a new array. When \<^verbatim>\<open>setItems\<close> throws, the
  timeline effect ends there, the persistence effect declared after it does not run,
  and the page is removed: \<^verbatim>\<open>localStorage\<close> keeps what it held.
\<close>

definition after_render :: "widget_reply \<Rightarrow> app_state \<Rightarrow> app_state" where
  "after_render r s =
     (case r of
        Throws \<Rightarrow> s\<lparr>mounted := False\<rparr>
      | Returns gen \<Rightarrow> persist (sync_timeline gen s))"

text \<open>
  Mounting \<^verbatim>\<open>App\<close> (lines 24-80) over the given storage, when the initial \<^verbatim>\<open>items\<close> is an
  array: the mount effect creates the timeline from the items, then the two effects
  above run for the first time. \<open>None\<close> stands for the other outcomes: \<^verbatim>\<open>JSON.parse\<close>
  throws, or the stored text denotes something else than an array.
\<close>

definition initial_items :: "jstring option \<Rightarrow> jsval option" where
  "initial_items stored =
     (case stored of
        None \<Rightarrow> Some (JArr [])
      | Some t \<Rightarrow> if t = [] then Some (JArr []) else JSON_parse t)"

definition App_mount :: "(jstring \<Rightarrow> jstring option) \<Rightarrow> widget_reply \<Rightarrow> app_state option" where
  "App_mount storage r =
     (case initial_items (storage LOCAL_STORAGE_KEY) of
        Some (JArr xs) \<Rightarrow>
          Some (after_render r
            \<lparr>items = xs, selectedEvent = JNull, isEditing = False, pendingSelection = JNull,
             timeline_items = [], timeouts = [], localStorage = storage, alerts = [],
             downloads = [], mounted = True\<rparr>)
      | _ \<Rightarrow> None)"

text \<open>The record that both forms build from their fields (lines 87-97 and 149-159).\<close>

definition location_of :: "form \<Rightarrow> jsval" where
  "location_of f =
     JObj (put_all []
       [(js ''name'', JStr (f_locationName f)),
        (js ''lat'', JNum (parseFloat (f_lat f))),
        (js ''lng'', JNum (parseFloat (f_lng f)))])"

definition end_of :: "form \<Rightarrow> jsval" where
  "end_of f = (if truthy (JStr (f_end f)) then JStr (f_end f) else JNull)"

definition form_fields :: "form \<Rightarrow> (jstring \<times> jsval) list" where
  "form_fields f =
     [(js ''content'', JStr (f_title f)),
      (js ''start'', JStr (f_start f)),
      (js ''end'', end_of f),
      (js ''title'', JStr (f_title f)),
      (js ''description'', JStr (f_description f)),
      (js ''image'', JStr (f_image f)),
      (js ''location'', location_of f)]"

definition newEvent :: "nat \<Rightarrow> form \<Rightarrow> jsval" where
  "newEvent now f =
     JObj (put_all []
       ([(js ''id'', JStr (decimal now))] @ form_fields f @ [(js ''linksTo'', JArr [])]))"

text \<open>
  The handlers. Each is the state in which the handler leaves the component: the values
  it has given to the state variables and to the ref, before React renders again.

  \<^verbatim>\<open>handleAddEvent\<close> (lines 82-105); \<open>now\<close> is the value of \<^verbatim>\<open>Date.now()\<close>.
\<close>

definition handleAddEvent :: "nat \<Rightarrow> form \<Rightarrow> app_state \<Rightarrow> app_state" where
  "handleAddEvent now f s =
     s\<lparr>pendingSelection := obj_get (own_props (newEvent now f)) (js ''id''),
       items := items s @ [newEvent now f],
       selectedEvent := newEvent now f\<rparr>"

text \<open>\<^verbatim>\<open>handleExport\<close> (lines 107-116): the document offered for download.\<close>

definition export_text :: "app_state \<Rightarrow> jstring" where
  "export_text s = to_text (JSON_stringify 2 (JArr (items s)))"

definition handleExport :: "app_state \<Rightarrow> app_state" where
  "handleExport s = s\<lparr>downloads := downloads s @ [export_text s]\<rparr>"

text \<open>
  \<^verbatim>\<open>handleImport\<close> (lines 118-136), with the text the file reader delivers; \<open>None\<close> when
  no file was chosen.
\<close>

fun Array_isArray :: "jsval \<Rightarrow> bool" where
  "Array_isArray (JArr xs) = True"
| "Array_isArray v = False"

definition alert_not_array :: jstring where
  "alert_not_array = js ''Le fichier n'est pas un tableau valide.''"

definition alert_parse_error :: jstring where
  "alert_parse_error = js ''Erreur lors de l'importation du fichier JSON.''"

definition alert :: "jstring \<Rightarrow> app_state \<Rightarrow> app_state" where
  "alert msg s = s\<lparr>alerts := alerts s @ [msg]\<rparr>"

definition handleImport :: "jstring option \<Rightarrow> app_state \<Rightarrow> app_state" where
  "handleImport file s =
     (case file of
        None \<Rightarrow> s
      | Some text \<Rightarrow>
          (case JSON_parse text of
             None \<Rightarrow> alert alert_parse_error s
           | Some (JArr data) \<Rightarrow> s\<lparr>items := data\<rparr>
           | Some _ \<Rightarrow> alert alert_not_array s))"

text \<open>
  \<^verbatim>\<open>items.filter((item) => item.id !== selectedEvent.id)\<close> and
  \<^verbatim>\<open>items.map((item) => (item.id === updatedEvent.id ? updatedEvent : item))\<close>: the
  callback reads \<^verbatim>\<open>item.id\<close> on every element, and the first read that throws ends the
  loop.
\<close>

fun filter_other_ids :: "jsval \<Rightarrow> jsval list \<Rightarrow> error + jsval list" where
  "filter_other_ids sid [] = Inr []"
| "filter_other_ids sid (item # rest) =
     (case get_id item of
        Inl e \<Rightarrow> Inl e
      | Inr i \<Rightarrow>
          (case filter_other_ids sid rest of
             Inl e \<Rightarrow> Inl e
           | Inr kept \<Rightarrow> Inr (if \<not> strict_eq i sid then item # kept else kept)))"

fun replace_by_id :: "jsval \<Rightarrow> jsval \<Rightarrow> jsval list \<Rightarrow> error + jsval list" where
  "replace_by_id uid updated [] = Inr []"
| "replace_by_id uid updated (item # rest) =
     (case get_id item of
        Inl e \<Rightarrow> Inl e
      | Inr i \<Rightarrow>
          (case replace_by_id uid updated rest of
             Inl e \<Rightarrow> Inl e
           | Inr done \<Rightarrow> Inr ((if strict_eq i uid then updated else item) # done)))"

text \<open>
  \<^verbatim>\<open>handleDeleteEvent\<close> (lines 138-142). \<open>Inl\<close> is an exception that leaves the handler
  before any state is set.
\<close>

definition handleDeleteEvent :: "app_state \<Rightarrow> error + app_state" where
  "handleDeleteEvent s =
     (if \<not> truthy (selectedEvent s) then Inr s
      else
        (case get_id (selectedEvent s) of
           Inl e \<Rightarrow> Inl e
         | Inr sid \<Rightarrow>
             (case filter_other_ids sid (items s) of
                Inl e \<Rightarrow> Inl e
              | Inr kept \<Rightarrow> Inr (s\<lparr>items := kept, selectedEvent := JNull\<rparr>))))"

text \<open>\<^verbatim>\<open>handleEditSubmit\<close> (lines 144-164).\<close>

definition updatedEvent :: "jsval \<Rightarrow> form \<Rightarrow> jsval" where
  "updatedEvent sel f = JObj (put_all (own_props sel) (form_fields f))"

definition handleEditSubmit :: "form \<Rightarrow> app_state \<Rightarrow> error + app_state" where
  "handleEditSubmit f s =
     (let updated = updatedEvent (selectedEvent s) f in
      case get_id updated of
        Inl e \<Rightarrow> Inl e
      | Inr uid \<Rightarrow>
          (case replace_by_id uid updated (items s) of
             Inl e \<Rightarrow> Inl e
           | Inr new_items \<Rightarrow>
               Inr (s\<lparr>items := new_items, selectedEvent := updated, isEditing := False\<rparr>)))"

text \<open>
  The \<^verbatim>\<open>select\<close> listener of the timeline (lines 44-50), with the event the widget's
  data set returned for the clicked id, and the two buttons that switch edit mode.
\<close>

definition timeline_select :: "jsval \<Rightarrow> app_state \<Rightarrow> app_state" where
  "timeline_select event s =
     s\<lparr>selectedEvent := (if truthy event then event else JNull), isEditing := False\<rparr>"

definition set_editing :: "bool \<Rightarrow> app_state \<Rightarrow> app_state" where
  "set_editing b s = s\<lparr>isEditing := b\<rparr>"

text \<open>
  The deferred selection scheduled by the timeline effect (lines 65-73), run on the
  items of the render that scheduled it. \<open>ok\<close> says that the two calls into the
  timeline (\<^verbatim>\<open>setSelection\<close>, \<^verbatim>\<open>focus\<close>) return. An exception in the callback ends it.
\<close>

fun find_by_id :: "jsval \<Rightarrow> jsval list \<Rightarrow> error + jsval option" where
  "find_by_id i [] = Inr None"
| "find_by_id i (e # es) =
     (case get_id e of
        Inl err \<Rightarrow> Inl err
      | Inr j \<Rightarrow> if strict_eq j i then Inr (Some e) else find_by_id i es)"

definition run_timeout :: "bool \<Rightarrow> app_state \<Rightarrow> app_state" where
  "run_timeout ok s =
     (case timeouts s of
        [] \<Rightarrow> s
      | (idToSelect, its) # rest \<Rightarrow>
          if \<not> ok then s\<lparr>timeouts := rest\<rparr>
          else
            (case find_by_id idToSelect its of
               Inr (Some event) \<Rightarrow>
                 if truthy event then s\<lparr>timeouts := rest, selectedEvent := event\<rparr>
                 else s\<lparr>timeouts := rest\<rparr>
             | _ \<Rightarrow> s\<lparr>timeouts := rest\<rparr>))"

text \<open>
  A user action, from the click to the end of the render it causes. The effects run
  when the handler has given \<^verbatim>\<open>items\<close> a new array: always after an add, after an edit
  or a delete whose handler has not thrown, after an import that found an array. A
  delete without a selection, an import that alerts and a handler that throws set no
  state, so nothing is rendered and no effect runs.
\<close>

definition add_event :: "widget_reply \<Rightarrow> nat \<Rightarrow> form \<Rightarrow> app_state \<Rightarrow> app_state" where
  "add_event r now f s = after_render r (handleAddEvent now f s)"

definition edit_event :: "widget_reply \<Rightarrow> form \<Rightarrow> app_state \<Rightarrow> app_state" where
  "edit_event r f s =
     (case handleEditSubmit f s of Inl e \<Rightarrow> s | Inr s' \<Rightarrow> after_render r s')"

definition delete_event :: "widget_reply \<Rightarrow> app_state \<Rightarrow> app_state" where
  "delete_event r s =
     (if \<not> truthy (selectedEvent s) then s
      else (case handleDeleteEvent s of Inl e \<Rightarrow> s | Inr s' \<Rightarrow> after_render r s'))"

definition import_file :: "widget_reply \<Rightarrow> jstring option \<Rightarrow> app_state \<Rightarrow> app_state" where
  "import_file r file s =
     (case file of
        None \<Rightarrow> s
      | Some text \<Rightarrow>
          (case JSON_parse text of
             Some (JArr data) \<Rightarrow> after_render r (handleImport file s)
           | _ \<Rightarrow> handleImport file s))"

subsection \<open>Values that JSON denotes\<close>

text \<open>
  The values that a JSON text can denote: no \<^verbatim>\<open>undefined\<close>, no \<^verbatim>\<open>NaN\<close>, no infinity and no
  negative zero anywhere inside. The other two conditions only say that the value is
  well formed as a value of the model: the digits of a number are in the normal form
  described above, and the property names of an object are distinct.
\<close>

definition canonical :: "jstring \<Rightarrow> bool" where
  "canonical ds = (ds \<noteq> [] \<and> list_all is_digit ds \<and> hd ds \<noteq> 0x30 \<and> last ds \<noteq> 0x30)"

fun json_num :: "jsnum \<Rightarrow> bool" where
  "json_num (Zero neg) = (\<not> neg)"
| "json_num (Dec neg ds n) = canonical ds"
| "json_num x = False"

fun jsonable :: "jsval \<Rightarrow> bool"
  and jsonable_elems :: "jsval list \<Rightarrow> bool"
  and jsonable_members :: "(jstring \<times> jsval) list \<Rightarrow> bool"
where
  "jsonable JUndefined = False"
| "jsonable JNull = True"
| "jsonable (JBool b) = True"
| "jsonable (JNum x) = json_num x"
| "jsonable (JStr s) = True"
| "jsonable (JArr xs) = jsonable_elems xs"
| "jsonable (JObj ps) = (distinct (map fst ps) \<and> jsonable_members ps)"
| "jsonable_elems [] = True"
| "jsonable_elems (x # xs) = (jsonable x \<and> jsonable_elems xs)"
| "jsonable_members [] = True"
| "jsonable_members (p # ps) = (jsonable (snd p) \<and> jsonable_members ps)"

subsection \<open>Identifiers\<close>

text \<open>
  The id of a value on which \<^verbatim>\<open>item.id\<close> does not throw. Two elements of the store share
  an id when both have one and \<^verbatim>\<open>===\<close> holds between the two. A record carries an id
  when its \<^verbatim>\<open>id\<close> is a string, a number or a boolean: on such ids \<^verbatim>\<open>===\<close> is the
  comparison by value of the model, whatever it is compared with.
\<close>

definition id_of :: "jsval \<Rightarrow> jsval" where
  "id_of v = (case get_id v of Inl e \<Rightarrow> JUndefined | Inr i \<Rightarrow> i)"

definition same_id :: "jsval \<Rightarrow> jsval \<Rightarrow> bool" where
  "same_id x y = (\<not> nullish x \<and> \<not> nullish y \<and> strict_eq (id_of x) (id_of y))"

fun unique_ids :: "jsval list \<Rightarrow> bool" where
  "unique_ids [] = True"
| "unique_ids (x # xs) = ((\<forall>y\<in>set xs. \<not> same_id x y) \<and> unique_ids xs)"

fun has_id :: "jsval \<Rightarrow> bool" where
  "has_id (JObj ps) =
     (primitive (obj_get ps (js ''id'')) \<and> \<not> nullish (obj_get ps (js ''id'')))"
| "has_id v = False"

subsection \<open>States and inputs used below\<close>

text \<open>The application mounted over an empty \<^verbatim>\<open>localStorage\<close>.\<close>

definition empty_app :: app_state where
  "empty_app =
     \<lparr>items = [], selectedEvent = JNull, isEditing = False, pendingSelection = JNull,
      timeline_items = [], timeouts = [],
      localStorage = [LOCAL_STORAGE_KEY \<mapsto> js ''[]''], alerts = [], downloads = [],
      mounted = True\<rparr>"

text \<open>
  The states the user interface can reach from the application mounted over an empty
  storage. The page takes an action only while it is mounted, and the timeline may
  answer each render either way.
\<close>

inductive reachable :: "app_state \<Rightarrow> bool" where
  r_init: "reachable empty_app"
| r_add: "reachable s \<Longrightarrow> mounted s \<Longrightarrow> reachable (add_event r now f s)"
| r_edit: "reachable s \<Longrightarrow> mounted s \<Longrightarrow> reachable (edit_event r f s)"
| r_delete: "reachable s \<Longrightarrow> mounted s \<Longrightarrow> reachable (delete_event r s)"
| r_import: "reachable s \<Longrightarrow> mounted s \<Longrightarrow> reachable (import_file r file s)"
| r_export: "reachable s \<Longrightarrow> mounted s \<Longrightarrow> reachable (handleExport s)"
| r_select: "reachable s \<Longrightarrow> mounted s \<Longrightarrow> reachable (timeline_select event s)"
| r_editing: "reachable s \<Longrightarrow> mounted s \<Longrightarrow> reachable (set_editing b s)"
| r_timeout: "reachable s \<Longrightarrow> mounted s \<Longrightarrow> reachable (run_timeout ok s)"

text \<open>
  The same, where every import that installs an array installs one whose elements are
  records that carry an id, no two the same, and every add happens at a time that is not
  already the id of a stored record. (Into a record without an id the timeline writes
  one of its own making, of which nothing is known here.)
\<close>

definition imports_unique :: "jstring option \<Rightarrow> bool" where
  "imports_unique file =
     (case file of
        None \<Rightarrow> True
      | Some text \<Rightarrow>
          (case JSON_parse text of
             Some (JArr data) \<Rightarrow> list_all has_id data \<and> unique_ids data
           | _ \<Rightarrow> True))"

definition fresh_id :: "nat \<Rightarrow> jsval list \<Rightarrow> bool" where
  "fresh_id now xs = (\<forall>x\<in>set xs. nullish x \<or> \<not> strict_eq (id_of x) (JStr (decimal now)))"

inductive reachable_unique :: "app_state \<Rightarrow> bool" where
  u_init: "reachable_unique empty_app"
| u_add: "reachable_unique s \<Longrightarrow> mounted s \<Longrightarrow> fresh_id now (items s)
          \<Longrightarrow> reachable_unique (add_event r now f s)"
| u_edit: "reachable_unique s \<Longrightarrow> mounted s \<Longrightarrow> reachable_unique (edit_event r f s)"
| u_delete: "reachable_unique s \<Longrightarrow> mounted s \<Longrightarrow> reachable_unique (delete_event r s)"
| u_import: "reachable_unique s \<Longrightarrow> mounted s \<Longrightarrow> imports_unique file
          \<Longrightarrow> reachable_unique (import_file r file s)"
| u_export: "reachable_unique s \<Longrightarrow> mounted s \<Longrightarrow> reachable_unique (handleExport s)"
| u_select: "reachable_unique s \<Longrightarrow> mounted s \<Longrightarrow> reachable_unique (timeline_select event s)"
| u_editing: "reachable_unique s \<Longrightarrow> mounted s \<Longrightarrow> reachable_unique (set_editing b s)"
| u_timeout: "reachable_unique s \<Longrightarrow> mounted s \<Longrightarrow> reachable_unique (run_timeout ok s)"

text \<open>The persisted mirror holds the serialization of the current items.\<close>

definition in_sync :: "app_state \<Rightarrow> bool" where
  "in_sync s = (localStorage s LOCAL_STORAGE_KEY = JSON_stringify 0 (JArr (items s)))"

text \<open>Ids for the timeline to write, one for each record it finds without an id.\<close>

definition sample_ids :: "nat \<Rightarrow> jstring" where
  "sample_ids k = js ''item-'' @ decimal k"

definition launch_form :: form where
  "launch_form =
     \<lparr>f_title = js ''Launch'', f_start = js ''2024-01-01'', f_end = [],
      f_description = [], f_image = [], f_locationName = [],
      f_lat = js ''0'', f_lng = js ''0''\<rparr>"



definition two_app :: app_state where
  "two_app =
     timeline_select (newEvent 5 launch_form)
       (add_event (Returns sample_ids) 7 launch_form
         (add_event (Returns sample_ids) 5 launch_form empty_app))"

text \<open>
  Four documents: two records of one id; one record with an id and a start; two such
  records with different ids; one record with a start and no id.
\<close>

definition dup_text :: jstring where
  \<open>dup_text = js ''[{"id":"1","title":"a"},{"id":"1","title":"b"}]''\<close>

definition rec_a :: jsval where
  "rec_a = JObj [(js ''id'', JStr (js ''1'')), (js ''title'', JStr (js ''a''))]"

definition rec_b :: jsval where
  "rec_b = JObj [(js ''id'', JStr (js ''1'')), (js ''title'', JStr (js ''b''))]"

definition other_text :: jstring where
  \<open>other_text = js ''[{"id":"7","start":"2024-01-01"}]''\<close>

definition rec_other :: jsval where
  "rec_other = JObj [(js ''id'', JStr (js ''7'')), (js ''start'', JStr (js ''2024-01-01''))]"

definition pair_text :: jstring where
  \<open>pair_text = js ''[{"id":"7","start":"2024-01-01"},{"id":"8","start":"2024-02-01"}]''\<close>

definition rec_next :: jsval where
  "rec_next = JObj [(js ''id'', JStr (js ''8'')), (js ''start'', JStr (js ''2024-02-01''))]"

definition noid_text :: jstring where
  \<open>noid_text = js ''[{"title":"T","start":"2024-01-01"}]''\<close>

definition rec_noid :: jsval where
  "rec_noid = JObj [(js ''title'', JStr (js ''T'')), (js ''start'', JStr (js ''2024-01-01''))]"

text \<open>
  The page after the Launch form was added, and the page after the second document was
  then imported: the record added first is still the selected one.
\<close>

definition launched_app :: app_state where
  "launched_app = add_event (Returns sample_ids) 1704067200000 launch_form empty_app"

definition stale_app :: app_state where
  "stale_app = import_file (Returns sample_ids) (Some other_text) launched_app"

text \<open>
  The Launch form with the latitude field left empty, the page after adding it, and the
  record that add builds from the Launch form, as a function of its latitude.
\<close>

definition blank_lat_form :: form where
  "blank_lat_form = launch_form\<lparr>f_lat := []\<rparr>"

definition nan_app :: app_state where
  "nan_app = add_event (Returns sample_ids) 1704067200000 blank_lat_form empty_app"

definition launch_record :: "jsval \<Rightarrow> jsval" where
  "launch_record lat =
     JObj [(js ''id'', JStr (decimal 1704067200000)), (js ''content'', JStr (js ''Launch'')),
           (js ''start'', JStr (js ''2024-01-01'')), (js ''end'', JNull),
           (js ''title'', JStr (js ''Launch'')), (js ''description'', JStr []),
           (js ''image'', JStr []),
           (js ''location'',
              JObj [(js ''name'', JStr []), (js ''lat'', lat), (js ''lng'', JNum (Zero False))]),
           (js ''linksTo'', JArr [])]"

text \<open>The items and the selection a handler leaves, when it returns.\<close>

definition result_items :: "error + app_state \<Rightarrow> jsval list option" where
  "result_items r = (case r of Inl e \<Rightarrow> None | Inr s \<Rightarrow> Some (items s))"

definition result_selected :: "error + app_state \<Rightarrow> jsval option" where
  "result_selected r = (case r of Inl e \<Rightarrow> None | Inr s \<Rightarrow> Some (selectedEvent s))"

section \<open>Properties\<close>

subsection \<open>Basic facts\<close>

lemma js_Nil: "js [] = []"
  by (simp add: js_def)

lemma after_render_fields [simp]:
  "selectedEvent (after_render r s) = selectedEvent s"
  "isEditing (after_render r s) = isEditing s"
  "alerts (after_render r s) = alerts s"
  "downloads (after_render r s) = downloads s"
  by (simp_all add: after_render_def persist_def sync_timeline_def Let_def
      split: widget_reply.splits)

lemma after_render_Returns [simp]:
  "items (after_render (Returns gen) s) = write_ids gen 0 (items s)"
  "timeline_items (after_render (Returns gen) s) = write_ids gen 0 (items s)"
  "mounted (after_render (Returns gen) s) = mounted s"
  by (simp_all add: after_render_def persist_def sync_timeline_def Let_def)

lemma after_render_Throws [simp]:
  "items (after_render Throws s) = items s"
  "localStorage (after_render Throws s) = localStorage s"
  "mounted (after_render Throws s) = False"
  by (simp_all add: after_render_def)

lemma after_render_in_sync: "in_sync (after_render (Returns gen) s)"
  by (simp add: in_sync_def after_render_def persist_def sync_timeline_def Let_def to_text_def
      JSON_stringify_def)

lemma write_ids_same: "list_all (\<lambda>x. \<not> lacks_id x) xs \<Longrightarrow> write_ids gen k xs = xs"
  by (induction xs) simp_all

lemma has_id_not_lacks: "has_id x \<Longrightarrow> \<not> lacks_id x"
  by (cases x) simp_all

lemma write_ids_has_id: "list_all has_id xs \<Longrightarrow> write_ids gen k xs = xs"
  by (rule write_ids_same) (simp add: list_all_iff has_id_not_lacks)

lemma after_render_items_has_id:
  "list_all has_id (items s) \<Longrightarrow> items (after_render r s) = items s"
  by (cases r) (simp_all add: write_ids_has_id)

lemma App_mount_empty: "App_mount Map.empty (Returns gen) = Some empty_app"
  by (simp add: App_mount_def initial_items_def after_render_def persist_def sync_timeline_def
      empty_app_def to_text_def JSON_stringify_def wrap_def js_def)

lemma cunit_of_char_eq_iff:
  "(of_nat (of_char c) :: cunit) = of_nat (of_char d) \<longleftrightarrow> c = d"
proof -
  have c: "take_bit 16 (of_char c :: nat) = of_char c"
    by (rule take_bit_nat_eq_self) (rule less_trans [OF nat_of_char_less_256], simp)
  have d: "take_bit 16 (of_char d :: nat) = of_char d"
    by (rule take_bit_nat_eq_self) (rule less_trans [OF nat_of_char_less_256], simp)
  show ?thesis
    by (simp add: word_of_nat_eq_iff c d)
qed

lemma js_eq_iff [simp]: "js a = js b \<longleftrightarrow> a = b"
proof (induction a arbitrary: b)
  case Nil
  then show ?case by (auto simp: js_def)
next
  case (Cons c a)
  show ?case
  proof (cases b)
    case Nil
    then show ?thesis by (simp add: js_def)
  next
    case (Cons d b')
    with Cons.IH [of b'] show ?thesis
      by (simp add: js_def cunit_of_char_eq_iff)
  qed
qed

lemma js_eq_Nil [simp]: "js a = [] \<longleftrightarrow> a = []" "[] = js a \<longleftrightarrow> a = []"
  by (auto simp: js_def)

lemma parseFloat_0: "parseFloat (js ''0'') = Zero False"
  by code_simp

lemma newEvent_launch:
  "newEvent now launch_form =
     JObj [(js ''id'', JStr (decimal now)), (js ''content'', JStr (js ''Launch'')),
           (js ''start'', JStr (js ''2024-01-01'')), (js ''end'', JNull),
           (js ''title'', JStr (js ''Launch'')), (js ''description'', JStr []),
           (js ''image'', JStr []),
           (js ''location'',
              JObj [(js ''name'', JStr []), (js ''lat'', JNum (Zero False)),
                    (js ''lng'', JNum (Zero False))]),
           (js ''linksTo'', JArr [])]"
  by (simp add: newEvent_def form_fields_def location_of_def end_of_def launch_form_def
      parseFloat_0 put_all_def)

lemma get_id_id_of: "\<not> nullish v \<Longrightarrow> get_id v = Inr (id_of v)"
  by (cases v) (simp_all add: id_of_def)

lemma get_id_Inr: "get_id v = Inr i \<Longrightarrow> \<not> nullish v \<and> id_of v = i"
  by (cases v) (simp_all add: id_of_def)

lemma truthy_not_nullish: "truthy v \<Longrightarrow> \<not> nullish v"
  by (cases v) simp_all

lemma filter_other_ids_ok:
  "\<forall>x\<in>set xs. \<not> nullish x \<Longrightarrow>
   filter_other_ids sid xs = Inr (filter (\<lambda>x. \<not> strict_eq (id_of x) sid) xs)"
  by (induction xs) (simp_all add: get_id_id_of)


lemma replace_by_id_Inr:
  "replace_by_id uid u xs = Inr ys \<Longrightarrow>
   (\<forall>x\<in>set xs. \<not> nullish x) \<and> ys = map (\<lambda>x. if strict_eq (id_of x) uid then u else x) xs"
  by (induction xs arbitrary: ys) (auto split: sum.splits dest: get_id_Inr)

lemma filter_other_ids_Inr:
  "filter_other_ids sid xs = Inr ys \<Longrightarrow> ys = filter (\<lambda>x. \<not> strict_eq (id_of x) sid) xs"
  by (induction xs arbitrary: ys) (auto split: sum.splits dest: get_id_Inr)

lemma map_of_obj_put: "map_of (obj_put ps k v) = (map_of ps)(k \<mapsto> v)"
  by (induction ps) (auto simp: fun_eq_iff)

lemma obj_get_obj_put: "obj_get (obj_put ps k v) k' = (if k' = k then v else obj_get ps k')"
  by (simp add: obj_get_def map_of_obj_put)

lemma num_eq_sym: "num_eq x y \<Longrightarrow> num_eq y x"
  by (cases x; cases y) simp_all

lemma num_eq_trans: "num_eq x y \<Longrightarrow> num_eq y z \<Longrightarrow> num_eq x z"
  by (cases x; cases y; cases z) simp_all

lemma strict_eq_sym: "strict_eq a b \<Longrightarrow> strict_eq b a"
  by (cases a; cases b) (simp_all add: num_eq_sym)

lemma strict_eq_trans: "strict_eq a b \<Longrightarrow> strict_eq b c \<Longrightarrow> strict_eq a c"
  by (cases a; cases b; cases c) (auto intro: num_eq_trans)

lemma decimal_digits: "set (decimal n) \<subseteq> {c. is_digit c}"
proof (induction n rule: decimal.induct)
  case (1 n)
  have d: "is_digit (digit_char m)" if "m < 10" for m
  proof -
    from that have "m \<in> {0, 1, 2, 3, 4, 5, 6, 7, 8, 9}" by auto
    then show ?thesis by (auto simp: is_digit_def digit_char_def)
  qed
  show ?case
  proof (cases "n < 10")
    case True
    then show ?thesis by (subst decimal.simps) (simp add: d)
  next
    case False
    with "1.IH" show ?thesis by (subst decimal.simps) (simp add: d)
  qed
qed

lemma decimal_nonempty: "decimal n \<noteq> []"
  by (subst decimal.simps) simp

lemma decimal_not_id: "decimal n \<noteq> js ''id''"
proof
  assume "decimal n = js ''id''"
  with decimal_digits [of n] have "is_digit (0x69 :: cunit)" by (simp add: js_def)
  then show False by (simp add: is_digit_def)
qed

lemma obj_get_index_props:
  "obj_get (zip (map decimal [0..<n]) vs) (js ''id'') = JUndefined"
proof -
  have "js ''id'' \<notin> set (map decimal [0..<n])"
    using decimal_not_id [symmetric] by auto
  then have "js ''id'' \<notin> fst ` set (zip (map decimal [0..<n]) vs)"
    by (auto dest: set_zip_leftD)
  then show ?thesis
    by (simp add: obj_get_def map_of_eq_None_iff [THEN iffD2])
qed

lemma id_of_own_props: "obj_get (own_props v) (js ''id'') = id_of v"
  by (cases v) (simp_all add: id_of_def obj_get_index_props, simp_all add: obj_get_def)

lemma updatedEvent_id: "get_id (updatedEvent sel f) = Inr (id_of sel)"
  by (simp add: updatedEvent_def put_all_def form_fields_def obj_get_obj_put id_of_own_props)


lemma newEvent_id: "id_of (newEvent now f) = JStr (decimal now)"
  by (simp add: newEvent_def id_of_def put_all_def form_fields_def obj_get_obj_put)
    (simp add: obj_get_def)

lemma newEvent_not_nullish: "\<not> nullish (newEvent now f)"
  by (simp add: newEvent_def)

lemma newEvent_has_id: "has_id (newEvent now f)"
  by (simp add: newEvent_def put_all_def form_fields_def obj_get_obj_put)
    (simp add: obj_get_def)

lemma newEvent_truthy: "truthy (newEvent now f)"
  by (simp add: newEvent_def)

lemma newEvent_not_lacks: "\<not> lacks_id (newEvent now f)"
  by (rule has_id_not_lacks) (rule newEvent_has_id)

lemma parse_dup_text: "JSON_parse dup_text = Some (JArr [rec_a, rec_b])"
  unfolding dup_text_def rec_a_def rec_b_def by code_simp

lemma parse_other_text: "JSON_parse other_text = Some (JArr [rec_other])"
  unfolding other_text_def rec_other_def by code_simp

lemma parse_pair_text: "JSON_parse pair_text = Some (JArr [rec_other, rec_next])"
  unfolding pair_text_def rec_other_def rec_next_def by code_simp

lemma rec_next_id:
  "id_of rec_next = JStr (js ''8'')" "has_id rec_next" "\<not> nullish rec_next"
  "\<not> lacks_id rec_next"
  by (simp_all add: rec_next_def id_of_def obj_get_def)

lemma parse_noid_text: "JSON_parse noid_text = Some (JArr [rec_noid])"
  unfolding noid_text_def rec_noid_def by code_simp

lemma rec_ids: "id_of rec_a = JStr (js ''1'')" "id_of rec_b = JStr (js ''1'')"
  by (simp_all add: rec_a_def rec_b_def id_of_def obj_get_def)

lemma rec_other_id:
  "id_of rec_other = JStr (js ''7'')" "has_id rec_other" "\<not> nullish rec_other"
  "\<not> lacks_id rec_other"
  by (simp_all add: rec_other_def id_of_def obj_get_def)

lemma items_unchanged [simp]:
  "items (handleExport s) = items s"
  "items (timeline_select event s) = items s"
  "items (set_editing b s) = items s"
  "items (run_timeout ok s) = items s"
  by (simp_all add: handleExport_def timeline_select_def set_editing_def run_timeout_def
      split: list.splits prod.splits sum.splits option.splits)

lemma mounted_unchanged [simp]:
  "mounted (handleExport s) = mounted s"
  "mounted (timeline_select event s) = mounted s"
  "mounted (set_editing b s) = mounted s"
  "mounted (run_timeout ok s) = mounted s"
  "mounted (alert msg s) = mounted s"
  "mounted (handleAddEvent now f s) = mounted s"
  "mounted (handleImport fl s) = mounted s"
  by (simp_all add: handleExport_def timeline_select_def set_editing_def run_timeout_def
      alert_def handleAddEvent_def handleImport_def
      split: list.splits prod.splits sum.splits option.splits jsval.splits)

lemma empty_app_fields [simp]:
  "items empty_app = []" "selectedEvent empty_app = JNull" "mounted empty_app"
  "alerts empty_app = []" "localStorage empty_app LOCAL_STORAGE_KEY = Some (js ''[]'')"
  by (simp_all add: empty_app_def)

lemma launched_app_fields:
  "items launched_app = [newEvent 1704067200000 launch_form]"
  "selectedEvent launched_app = newEvent 1704067200000 launch_form"
  "mounted launched_app"
  by (simp_all add: launched_app_def add_event_def handleAddEvent_def newEvent_not_lacks)

lemma reachable_launched_app: "reachable launched_app"
  unfolding launched_app_def by (intro r_add r_init) simp

subsection \<open>Adding an event\<close>

text \<open>
  C3. Whatever the state and the submitted form, \<^verbatim>\<open>handleAddEvent\<close> leaves the old
  records in place and appends the new record, so the store grows by one, and the new
  record is the selected one as soon as the handler returns. Nothing in the handler
  depends on the required fields being filled in.
\<close>

theorem add_appends_and_selects:
  "items (handleAddEvent now f s) = items s @ [newEvent now f]
   \<and> length (items (handleAddEvent now f s)) = length (items s) + 1
   \<and> selectedEvent (handleAddEvent now f s) = newEvent now f"
  by (simp add: handleAddEvent_def)

theorem add_appends_and_selects_witness:
  "items (handleAddEvent 1704067200000 launch_form empty_app)
     = [newEvent 1704067200000 launch_form]
   \<and> length (items (handleAddEvent 1704067200000 launch_form empty_app)) = 1
   \<and> selectedEvent (handleAddEvent 1704067200000 launch_form empty_app)
     = newEvent 1704067200000 launch_form"
  using add_appends_and_selects [of 1704067200000 launch_form empty_app]
  by (simp add: empty_app_def)

text \<open>
  C9. The scenario of the specification: the form \<^verbatim>\<open>{title:"Launch", start:"2024-01-01",
  end:"", description:"", image:"", locationName:"", lat:"0", lng:"0"}\<close> added to an empty
  store leaves exactly one record, whose \<^verbatim>\<open>end\<close> is \<^verbatim>\<open>null\<close> and whose \<^verbatim>\<open>location\<close> is
  \<^verbatim>\<open>{name:"", lat:0, lng:0}\<close>, and that record is the selected one.
\<close>

theorem add_launch_scenario:
  assumes "items s = []"
  shows "items (handleAddEvent now launch_form s) = [newEvent now launch_form]
         \<and> obj_get (own_props (newEvent now launch_form)) (js ''end'') = JNull
         \<and> obj_get (own_props (newEvent now launch_form)) (js ''location'')
             = JObj [(js ''name'', JStr []), (js ''lat'', JNum (Zero False)),
                     (js ''lng'', JNum (Zero False))]
         \<and> selectedEvent (handleAddEvent now launch_form s) = newEvent now launch_form"
proof -
  have "obj_get (own_props (newEvent now launch_form)) (js ''end'') = JNull"
    unfolding newEvent_launch by (simp add: obj_get_def)
  moreover have "obj_get (own_props (newEvent now launch_form)) (js ''location'')
      = JObj [(js ''name'', JStr []), (js ''lat'', JNum (Zero False)),
              (js ''lng'', JNum (Zero False))]"
    unfolding newEvent_launch by (simp add: obj_get_def)
  ultimately show ?thesis
    using assms by (simp add: handleAddEvent_def)
qed

theorem add_launch_scenario_witness:
  "items empty_app = []
   \<and> items (handleAddEvent 1704067200000 launch_form empty_app)
       = [newEvent 1704067200000 launch_form]
   \<and> obj_get (own_props (newEvent 1704067200000 launch_form)) (js ''end'') = JNull
   \<and> selectedEvent (handleAddEvent 1704067200000 launch_form empty_app)
       = newEvent 1704067200000 launch_form"
proof -
  have e: "items empty_app = []" by (simp add: empty_app_def)
  show ?thesis using e add_launch_scenario [OF e, of 1704067200000] by simp
qed

subsection \<open>Deleting without a selection\<close>

text \<open>
  C10. When no record is selected, \<^verbatim>\<open>handleDeleteEvent\<close> returns at once: the state it
  leaves is the state it found, so the store, the persisted mirror and the absent
  selection are unchanged.
\<close>

theorem delete_without_selection:
  "selectedEvent s = JNull \<Longrightarrow> handleDeleteEvent s = Inr s"
  by (simp add: handleDeleteEvent_def)

theorem delete_without_selection_witness:
  "selectedEvent empty_app = JNull \<and> handleDeleteEvent empty_app = Inr empty_app"
proof -
  have e: "selectedEvent empty_app = JNull" by (simp add: empty_app_def)
  show ?thesis using e delete_without_selection [OF e] by simp
qed

subsection \<open>Importing\<close>

text \<open>
  C2. When the text is not JSON, or is JSON for something else than an array,
  \<^verbatim>\<open>handleImport\<close> changes nothing but the alerts, to which it adds exactly one; the
  alert for the first failure differs from the alert for the second.
\<close>

theorem import_failure_alerts:
  "(JSON_parse text = None \<longrightarrow>
      handleImport (Some text) s = s\<lparr>alerts := alerts s @ [alert_parse_error]\<rparr>)
   \<and> (\<forall>v. JSON_parse text = Some v \<and> \<not> Array_isArray v \<longrightarrow>
      handleImport (Some text) s = s\<lparr>alerts := alerts s @ [alert_not_array]\<rparr>)
   \<and> alert_parse_error \<noteq> alert_not_array"
proof (intro conjI allI impI)
  assume "JSON_parse text = None"
  then show "handleImport (Some text) s = s\<lparr>alerts := alerts s @ [alert_parse_error]\<rparr>"
    by (simp add: handleImport_def alert_def)
next
  fix v
  assume "JSON_parse text = Some v \<and> \<not> Array_isArray v"
  then show "handleImport (Some text) s = s\<lparr>alerts := alerts s @ [alert_not_array]\<rparr>"
    by (cases v) (simp_all add: handleImport_def alert_def)
next
  show "alert_parse_error \<noteq> alert_not_array"
    by (simp add: alert_parse_error_def alert_not_array_def)
qed

theorem import_failure_alerts_witness:
  "JSON_parse (js ''{'') = None
   \<and> handleImport (Some (js ''{'')) empty_app
       = empty_app\<lparr>alerts := [alert_parse_error]\<rparr>
   \<and> JSON_parse (js ''{}'') = Some (JObj [])
   \<and> handleImport (Some (js ''{}'')) empty_app
       = empty_app\<lparr>alerts := [alert_not_array]\<rparr>"
proof -
  have p1: "JSON_parse (js ''{'') = None" by code_simp
  have p2: "JSON_parse (js ''{}'') = Some (JObj [])" by code_simp
  have a: "alerts empty_app = []" by (simp add: empty_app_def)
  from import_failure_alerts [of "js ''{''" empty_app] p1 a
  have r1: "handleImport (Some (js ''{'')) empty_app = empty_app\<lparr>alerts := [alert_parse_error]\<rparr>"
    by simp
  from import_failure_alerts [of "js ''{}''" empty_app] p2 a
  have r2: "handleImport (Some (js ''{}'')) empty_app = empty_app\<lparr>alerts := [alert_not_array]\<rparr>"
    by simp
  from p1 p2 r1 r2 show ?thesis by simp
qed

text \<open>
  The claim C6 says that the store after the import of an array is exactly that array.
  The handler installs the array, but the store is then handed to the timeline, which
  writes an id into every record that has none: after the import of one record with a
  title and a start, the record of the store has a third property, whatever id the
  timeline makes, and the store is not the imported sequence.
\<close>

theorem import_writes_generated_id:
  "JSON_parse noid_text = Some (JArr [rec_noid])
   \<and> (\<forall>gen. reachable (import_file (Returns gen) (Some noid_text) empty_app))
   \<and> (\<forall>gen. items (import_file (Returns gen) (Some noid_text) empty_app)
         = [JObj [(js ''title'', JStr (js ''T'')), (js ''start'', JStr (js ''2024-01-01'')),
                  (js ''id'', JStr (gen 0))]])
   \<and> (\<forall>gen. items (import_file (Returns gen) (Some noid_text) empty_app) \<noteq> [rec_noid])"
proof -
  have i: "items (import_file (Returns gen) (Some noid_text) empty_app)
      = [JObj [(js ''title'', JStr (js ''T'')), (js ''start'', JStr (js ''2024-01-01'')),
               (js ''id'', JStr (gen 0))]]" for gen
    by (simp add: import_file_def handleImport_def parse_noid_text)
      (simp add: rec_noid_def obj_get_def)
  have r: "reachable (import_file (Returns gen) (Some noid_text) empty_app)" for gen
    by (intro r_import r_init) simp
  have n: "items (import_file (Returns gen) (Some noid_text) empty_app) \<noteq> [rec_noid]" for gen
    by (simp add: i rec_noid_def)
  from i r n parse_noid_text show ?thesis by blast
qed

text \<open>
  C6, amended. When the text is JSON for an array, \<^verbatim>\<open>handleImport\<close> makes that array the
  value of \<^verbatim>\<open>items\<close>. When the timeline accepts it, the store after the render is that
  array with an id written into each record that had none: it is the imported sequence
  when every record of it has an id, and then an old record that is not in the import
  is gone. When the timeline throws, the page is removed and \<^verbatim>\<open>localStorage\<close> is left as
  it was.
\<close>

theorem import_replaces_store:
  assumes "JSON_parse text = Some (JArr data)"
  shows "items (handleImport (Some text) s) = data
         \<and> items (import_file (Returns gen) (Some text) s) = write_ids gen 0 data
         \<and> (list_all (\<lambda>x. \<not> lacks_id x) data \<longrightarrow>
               items (import_file (Returns gen) (Some text) s) = data
               \<and> (\<forall>x. x \<in> set (items s) \<and> x \<notin> set data
                     \<longrightarrow> x \<notin> set (items (import_file (Returns gen) (Some text) s))))
         \<and> \<not> mounted (import_file Throws (Some text) s)
         \<and> localStorage (import_file Throws (Some text) s) = localStorage s"
  using assms by (simp add: import_file_def handleImport_def write_ids_same)

theorem import_replaces_store_witness:
  "JSON_parse other_text = Some (JArr [rec_other])
   \<and> items launched_app = [newEvent 1704067200000 launch_form]
   \<and> list_all (\<lambda>x. \<not> lacks_id x) [rec_other]
   \<and> items (handleImport (Some other_text) launched_app) = [rec_other]
   \<and> items (import_file (Returns sample_ids) (Some other_text) launched_app) = [rec_other]
   \<and> newEvent 1704067200000 launch_form
       \<notin> set (items (import_file (Returns sample_ids) (Some other_text) launched_app))
   \<and> \<not> mounted (import_file Throws (Some other_text) launched_app)"
proof -
  have l: "list_all (\<lambda>x. \<not> lacks_id x) [rec_other]"
    by (simp add: has_id_not_lacks rec_other_id)
  have n: "newEvent 1704067200000 launch_form \<noteq> rec_other"
    unfolding newEvent_launch by (simp add: rec_other_def)
  show ?thesis
    using l n import_replaces_store [OF parse_other_text, of launched_app sample_ids]
    by (simp add: parse_other_text launched_app_fields)
qed

subsection \<open>Persistence\<close>

lemma storage_unchanged [simp]:
  "localStorage (handleExport s) = localStorage s"
  "localStorage (timeline_select event s) = localStorage s"
  "localStorage (set_editing b s) = localStorage s"
  "localStorage (run_timeout ok s) = localStorage s"
  "localStorage (alert msg s) = localStorage s"
  "items (alert msg s) = items s"
  by (simp_all add: handleExport_def timeline_select_def set_editing_def run_timeout_def alert_def
      split: list.splits prod.splits sum.splits option.splits)

lemma in_sync_empty_app: "in_sync empty_app"
  by (simp add: in_sync_def empty_app_def JSON_stringify_def wrap_def js_def)

lemma in_sync_unchanged [simp]:
  "in_sync (handleExport s) = in_sync s"
  "in_sync (timeline_select event s) = in_sync s"
  "in_sync (set_editing b s) = in_sync s"
  "in_sync (run_timeout ok s) = in_sync s"
  "in_sync (alert msg s) = in_sync s"
  by (simp_all add: in_sync_def)

lemma mounted_in_sync_after_render:
  "mounted (after_render r s) \<Longrightarrow> in_sync (after_render r s)"
  by (cases r) (simp_all add: after_render_in_sync)

lemma in_sync_import:
  assumes "in_sync s" and "mounted (import_file r fl s)"
  shows "in_sync (import_file r fl s)"
proof (cases fl)
  case None
  with assms show ?thesis by (simp add: import_file_def)
next
  case (Some doc)
  show ?thesis
  proof (cases "JSON_parse doc")
    case None
    with Some assms show ?thesis by (simp add: import_file_def handleImport_def)
  next
    case (Some v)
    with \<open>fl = Some doc\<close> assms show ?thesis
      by (cases v) (simp_all add: import_file_def handleImport_def mounted_in_sync_after_render)
  qed
qed

lemma in_sync_edit:
  "in_sync s \<Longrightarrow> mounted (edit_event r f s) \<Longrightarrow> in_sync (edit_event r f s)"
  by (auto simp: edit_event_def mounted_in_sync_after_render split: sum.splits)

lemma in_sync_delete:
  "in_sync s \<Longrightarrow> mounted (delete_event r s) \<Longrightarrow> in_sync (delete_event r s)"
  by (auto simp: delete_event_def mounted_in_sync_after_render split: sum.splits if_splits)

lemma reachable_in_sync: "reachable s \<Longrightarrow> mounted s \<longrightarrow> in_sync s"
proof (induction rule: reachable.induct)
  case r_init
  show ?case by (simp add: in_sync_empty_app)
next
  case (r_add s r now f)
  show ?case by (simp add: add_event_def mounted_in_sync_after_render)
next
  case (r_edit s r f)
  then show ?case by (simp add: in_sync_edit)
next
  case (r_delete s r)
  then show ?case by (simp add: in_sync_delete)
next
  case (r_import s r fl)
  then show ?case by (simp add: in_sync_import)
qed simp_all

lemma reachable_dup_import: "reachable (import_file Throws (Some dup_text) empty_app)"
  by (intro r_import r_init) simp

lemma dup_import_items: "items (import_file Throws (Some dup_text) empty_app) = [rec_a, rec_b]"
  by (simp add: import_file_def handleImport_def parse_dup_text)

lemma stringify_dup: "JSON_stringify 0 (JArr [rec_a, rec_b]) = Some dup_text"
  unfolding dup_text_def rec_a_def rec_b_def by code_simp

text \<open>
  The claim C8 says that the mirror is in sync after every mutation, the import of a
  valid array among them. The persistence effect is declared after the timeline effect,
  and the timeline throws on an array with two records of one id: after the import of
  such a document into the empty application, \<^verbatim>\<open>items\<close> holds the two records, the
  entry of \<^verbatim>\<open>localStorage\<close> is still the text \<^verbatim>\<open>[]\<close> of the empty store, and the page is
  gone.
\<close>

theorem import_rejected_not_persisted:
  "reachable (import_file Throws (Some dup_text) empty_app)
   \<and> JSON_parse dup_text = Some (JArr [rec_a, rec_b])
   \<and> items (import_file Throws (Some dup_text) empty_app) = [rec_a, rec_b]
   \<and> localStorage (import_file Throws (Some dup_text) empty_app) LOCAL_STORAGE_KEY
       = Some (js ''[]'')
   \<and> JSON_stringify 0 (JArr (items (import_file Throws (Some dup_text) empty_app)))
       = Some dup_text
   \<and> \<not> in_sync (import_file Throws (Some dup_text) empty_app)
   \<and> \<not> mounted (import_file Throws (Some dup_text) empty_app)"
proof -
  have l: "localStorage (import_file Throws (Some dup_text) empty_app) LOCAL_STORAGE_KEY
      = Some (js ''[]'')"
    by (simp add: import_file_def handleImport_def parse_dup_text)
  have m: "\<not> mounted (import_file Throws (Some dup_text) empty_app)"
    by (simp add: import_file_def handleImport_def parse_dup_text)
  have d: "js ''[]'' \<noteq> dup_text"
    by (simp add: dup_text_def)
  from l d have n: "\<not> in_sync (import_file Throws (Some dup_text) empty_app)"
    by (simp add: in_sync_def dup_import_items stringify_dup)
  from reachable_dup_import parse_dup_text dup_import_items l m n show ?thesis
    by (simp add: stringify_dup)
qed

text \<open>
  C8, amended. When the timeline accepts the items of a render, the entry of
  \<^verbatim>\<open>localStorage\<close> under the fixed key is the JSON serialization of the items the render
  leaves: so it is after an add, after an edit or a delete whose handler returns, and
  after the import of an array. If the timeline throws, the entry is left as it was and the page is removed.
  The other operations touch neither the items nor the entry, so the two agree in every
  state in which the page is mounted.
\<close>

theorem mutations_persist:
  "in_sync (after_render (Returns gen) s)
   \<and> in_sync (add_event (Returns gen) now f s)
   \<and> (\<forall>s'. handleEditSubmit f s = Inr s' \<longrightarrow> in_sync (edit_event (Returns gen) f s))
   \<and> (\<forall>s'. truthy (selectedEvent s) \<and> handleDeleteEvent s = Inr s'
          \<longrightarrow> in_sync (delete_event (Returns gen) s))
   \<and> (\<forall>data. JSON_parse text = Some (JArr data)
          \<longrightarrow> in_sync (import_file (Returns gen) (Some text) s))
   \<and> localStorage (after_render Throws s) = localStorage s
   \<and> \<not> mounted (after_render Throws s)
   \<and> (reachable s \<and> mounted s \<longrightarrow> in_sync s)"
  by (auto simp: add_event_def edit_event_def delete_event_def import_file_def
      after_render_in_sync reachable_in_sync)

theorem mutations_persist_witness:
  "in_sync (add_event (Returns sample_ids) 1704067200000 launch_form empty_app)
   \<and> JSON_parse other_text = Some (JArr [rec_other])
   \<and> in_sync (import_file (Returns sample_ids) (Some other_text) launched_app)
   \<and> localStorage (after_render Throws launched_app) = localStorage launched_app
   \<and> reachable stale_app \<and> mounted stale_app \<and> in_sync stale_app"
proof -
  have r: "reachable stale_app"
    unfolding stale_app_def by (intro r_import reachable_launched_app) (simp add: launched_app_fields)
  have m: "mounted stale_app"
    by (simp add: stale_app_def import_file_def parse_other_text launched_app_fields)
  show ?thesis
    using r m parse_other_text
      mutations_persist [of sample_ids empty_app 1704067200000 launch_form other_text]
      mutations_persist [of sample_ids launched_app 0 launch_form other_text]
      mutations_persist [of sample_ids stale_app 0 launch_form other_text]
    by simp
qed

subsection \<open>Editing\<close>



subsection \<open>Deleting the selected record\<close>

lemma stale_app_fields:
  "items stale_app = [rec_other]"
  "selectedEvent stale_app = newEvent 1704067200000 launch_form"
  "mounted stale_app"
  by (simp_all add: stale_app_def import_file_def handleImport_def parse_other_text
      launched_app_fields write_ids_has_id rec_other_id)

lemma reachable_stale_app: "reachable stale_app"
  unfolding stale_app_def
  by (intro r_import reachable_launched_app) (simp add: launched_app_fields)

lemma decimal_5_7: "decimal 5 \<noteq> decimal 7" "decimal 7 \<noteq> decimal 5"
  by (subst decimal.simps, subst decimal.simps, simp add: digit_char_def)+

lemma two_app_fields:
  "items two_app = [newEvent 5 launch_form, newEvent 7 launch_form]"
  "selectedEvent two_app = newEvent 5 launch_form"
  "mounted two_app"
  by (simp_all add: two_app_def timeline_select_def add_event_def handleAddEvent_def
      newEvent_not_lacks newEvent_truthy)

lemma reachable_two_app: "reachable two_app"
  unfolding two_app_def
  by (intro r_select r_add r_init)
    (simp_all add: add_event_def handleAddEvent_def)

lemma decimal_long: "10 \<le> n \<Longrightarrow> 2 \<le> length (decimal n)"
  using decimal_nonempty [of "n div 10"]
  by (subst decimal.simps) (cases "decimal (n div 10)", simp_all)

text \<open>
  The claim C5 says that exactly one record goes whenever a record is selected. The
  selection is a state variable of its own, which an import does not touch: after the
  Launch form was added, its record is the selected one, and it still is after the
  import of a document that does not hold it. The page shows it with its delete button;
  \<^verbatim>\<open>handleDeleteEvent\<close> then finds no record with the selected id, removes none and
  clears the selection.
\<close>

theorem delete_with_stale_selection:
  "reachable stale_app \<and> mounted stale_app
   \<and> items stale_app = [rec_other]
   \<and> selectedEvent stale_app = newEvent 1704067200000 launch_form
   \<and> truthy (selectedEvent stale_app)
   \<and> result_items (handleDeleteEvent stale_app) = Some [rec_other]
   \<and> result_selected (handleDeleteEvent stale_app) = Some JNull
   \<and> items (delete_event (Returns sample_ids) stale_app) = items stale_app
   \<and> length (items (delete_event (Returns sample_ids) stale_app)) = length (items stale_app)"
proof -
  have n: "decimal 1704067200000 \<noteq> js ''7''"
    using decimal_long [of 1704067200000] by (auto simp: js_def)
  have d: "handleDeleteEvent stale_app
      = Inr (stale_app\<lparr>items := [rec_other], selectedEvent := JNull\<rparr>)"
    using n
    by (simp add: handleDeleteEvent_def stale_app_fields newEvent_truthy get_id_id_of
        newEvent_not_nullish newEvent_id rec_other_id)
  show ?thesis
    by (simp add: reachable_stale_app stale_app_fields newEvent_truthy d result_items_def
        result_selected_def delete_event_def write_ids_has_id rec_other_id)
qed

text \<open>
  C5, amended. In a store of records with a record selected, whose id is not an array
  or an object (\<^verbatim>\<open>!==\<close> compares those by identity, which the model does not have),
  \<^verbatim>\<open>handleDeleteEvent\<close> removes the records whose id is the selected record's id, and no
  other, and clears the selection. Exactly one record goes when exactly one stored
  record has that id, and none when no stored record has it. With the store \<open>[A, B]\<close>,
  \<open>A\<close> selected and the id of \<open>B\<close> different from the id of \<open>A\<close>, the store becomes
  \<open>[B]\<close>. The render that follows leaves these items as they are when each of them has
  an id.
\<close>

theorem delete_removes_selected_id:
  assumes "truthy (selectedEvent s)" and "\<forall>x\<in>set (items s). \<not> nullish x"
    and "primitive (id_of (selectedEvent s))"
  shows "\<exists>s'. handleDeleteEvent s = Inr s'
     \<and> items s' = filter (\<lambda>x. \<not> strict_eq (id_of x) (id_of (selectedEvent s))) (items s)
     \<and> selectedEvent s' = JNull
     \<and> (length (filter (\<lambda>x. strict_eq (id_of x) (id_of (selectedEvent s))) (items s)) = 1
          \<longrightarrow> length (items s') + 1 = length (items s))
     \<and> (length (filter (\<lambda>x. strict_eq (id_of x) (id_of (selectedEvent s))) (items s)) = 0
          \<longrightarrow> items s' = items s)
     \<and> (\<forall>A B. items s = [A, B] \<and> selectedEvent s = A \<and> strict_eq (id_of A) (id_of A)
            \<and> \<not> strict_eq (id_of B) (id_of A) \<longrightarrow> items s' = [B])
     \<and> items (delete_event (Returns gen) s) = write_ids gen 0 (items s')
     \<and> (list_all (\<lambda>x. \<not> lacks_id x) (items s)
          \<longrightarrow> items (delete_event (Returns gen) s) = items s')"
proof -
  let ?P = "\<lambda>x. strict_eq (id_of x) (id_of (selectedEvent s))"
  let ?s' = "s\<lparr>items := filter (\<lambda>x. \<not> ?P x) (items s), selectedEvent := JNull\<rparr>"
  have sel: "get_id (selectedEvent s) = Inr (id_of (selectedEvent s))"
    using assms(1) by (simp add: get_id_id_of truthy_not_nullish)
  have run: "handleDeleteEvent s = Inr ?s'"
    using assms(1) by (simp add: handleDeleteEvent_def sel filter_other_ids_ok [OF assms(2)])
  have len: "length (filter ?P (items s)) + length (filter (\<lambda>x. \<not> ?P x) (items s))
      = length (items s)"
    by (rule sum_length_filter_compl)
  have none: "filter (\<lambda>x. \<not> ?P x) (items s) = items s" if "filter ?P (items s) = []"
    using that by (simp add: filter_empty_conv filter_id_conv)
  have keep: "write_ids gen 0 (filter (\<lambda>x. \<not> ?P x) (items s)) = filter (\<lambda>x. \<not> ?P x) (items s)"
    if "list_all (\<lambda>x. \<not> lacks_id x) (items s)"
    using that by (intro write_ids_same) (simp add: list_all_iff)
  show ?thesis
    using len none keep assms(1)
    by (intro exI [of _ ?s']) (simp add: run delete_event_def)
qed

theorem delete_removes_selected_id_witness:
  "items two_app = [newEvent 5 launch_form, newEvent 7 launch_form]
   \<and> selectedEvent two_app = newEvent 5 launch_form
   \<and> id_of (newEvent 5 launch_form) = JStr (decimal 5)
   \<and> id_of (newEvent 7 launch_form) = JStr (decimal 7)
   \<and> result_items (handleDeleteEvent two_app) = Some [newEvent 7 launch_form]
   \<and> result_selected (handleDeleteEvent two_app) = Some JNull
   \<and> items (delete_event (Returns sample_ids) two_app) = [newEvent 7 launch_form]"
proof -
  have t: "truthy (selectedEvent two_app)"
    by (simp add: two_app_fields newEvent_truthy)
  have h: "\<forall>x\<in>set (items two_app). \<not> nullish x"
    by (simp add: two_app_fields newEvent_not_nullish)
  have p: "primitive (id_of (selectedEvent two_app))"
    by (simp add: two_app_fields newEvent_id)
  from delete_removes_selected_id [OF t h p, of sample_ids]
  obtain s' where "handleDeleteEvent two_app = Inr s'"
    and "items s' = filter (\<lambda>x. \<not> strict_eq (id_of x) (id_of (selectedEvent two_app)))
                      (items two_app)"
    and "selectedEvent s' = JNull"
    and "items (delete_event (Returns sample_ids) two_app) = write_ids sample_ids 0 (items s')"
    by blast
  then show ?thesis
    by (simp add: two_app_fields newEvent_id result_items_def result_selected_def decimal_5_7
        newEvent_not_lacks)
qed

subsection \<open>Uniqueness of ids\<close>

lemma same_id_sym: "same_id x y \<Longrightarrow> same_id y x"
  by (auto simp: same_id_def dest: strict_eq_sym)

lemma unique_ids_append1:
  "unique_ids (xs @ [n]) \<longleftrightarrow> unique_ids xs \<and> (\<forall>x\<in>set xs. \<not> same_id x n)"
  by (induction xs) auto

lemma unique_ids_filter: "unique_ids xs \<Longrightarrow> unique_ids (filter P xs)"
  by (induction xs) auto

lemma unique_ids_replace:
  assumes "unique_ids xs" and "id_of u = uid" and "\<forall>x\<in>set xs. \<not> nullish x"
  shows "unique_ids (map (\<lambda>x. if strict_eq (id_of x) uid then u else x) xs)"
  using assms(1,3)
proof (induction xs)
  case Nil
  then show ?case by simp
next
  case (Cons x xs)
  let ?g = "\<lambda>x. if strict_eq (id_of x) uid then u else x"
  have ns: "\<not> same_id (?g x) (?g y)" if y: "y \<in> set xs" for y
  proof
    assume s: "same_id (?g x) (?g y)"
    from Cons.prems y have xy: "\<not> same_id x y" and nn: "\<not> nullish x" "\<not> nullish y"
      by simp_all
    show False
    proof (cases "strict_eq (id_of x) uid")
      case x: True
      show False
      proof (cases "strict_eq (id_of y) uid")
        case True
        with x have "strict_eq (id_of x) (id_of y)"
          by (blast intro: strict_eq_trans strict_eq_sym)
        with xy nn show False by (simp add: same_id_def)
      next
        case False
        with s x have "strict_eq uid (id_of y)" by (simp add: same_id_def assms(2))
        with False show False by (blast dest: strict_eq_sym)
      qed
    next
      case x: False
      show False
      proof (cases "strict_eq (id_of y) uid")
        case True
        with s x have "strict_eq (id_of x) uid" by (simp add: same_id_def assms(2))
        with x show False by simp
      next
        case False
        with s x xy show False by simp
      qed
    qed
  qed
  then have all: "\<forall>z\<in>?g ` set xs. \<not> same_id (?g x) z" by blast
  from Cons have IH: "unique_ids (map ?g xs)" by simp
  show ?case
    unfolding list.map unique_ids.simps set_map using all IH by blast
qed

lemma unique_ids_edit:
  assumes "unique_ids (items s)" and "handleEditSubmit f s = Inr s'"
  shows "unique_ids (items s')"
proof -
  let ?u = "updatedEvent (selectedEvent s) f"
  from assms(2) obtain ys where r: "replace_by_id (id_of (selectedEvent s)) ?u (items s) = Inr ys"
    and s': "items s' = ys"
    by (auto simp: handleEditSubmit_def Let_def updatedEvent_id split: sum.splits)
  from replace_by_id_Inr [OF r] have nn: "\<forall>x\<in>set (items s). \<not> nullish x"
    and ys: "ys = map (\<lambda>x. if strict_eq (id_of x) (id_of (selectedEvent s)) then ?u else x) (items s)"
    by simp_all
  have "id_of ?u = id_of (selectedEvent s)"
    using updatedEvent_id [of "selectedEvent s" f] by (simp add: id_of_def)
  from unique_ids_replace [OF assms(1) this nn] show ?thesis
    by (simp add: s' ys)
qed

lemma unique_ids_delete:
  assumes "unique_ids (items s)" and "handleDeleteEvent s = Inr s'"
  shows "unique_ids (items s')"
proof (cases "truthy (selectedEvent s)")
  case False
  with assms show ?thesis by (simp add: handleDeleteEvent_def)
next
  case True
  with assms(2) obtain sid ys where "filter_other_ids sid (items s) = Inr ys" and "items s' = ys"
    by (auto simp: handleDeleteEvent_def split: sum.splits)
  with filter_other_ids_Inr [of sid "items s" ys] assms(1) show ?thesis
    by (simp add: unique_ids_filter)
qed

lemma unique_ids_add:
  assumes "unique_ids (items s)" and "fresh_id now (items s)"
  shows "unique_ids (items (handleAddEvent now f s))"
  using assms
  by (auto simp: handleAddEvent_def unique_ids_append1 fresh_id_def same_id_def newEvent_id)

lemma unique_ids_import:
  assumes "unique_ids (items s)" and "imports_unique file"
  shows "unique_ids (items (handleImport file s))"
  using assms
  by (auto simp: handleImport_def imports_unique_def alert_def
      split: option.splits jsval.splits)

lemma has_id_import:
  assumes "list_all has_id (items s)" and "imports_unique file"
  shows "list_all has_id (items (handleImport file s))"
  using assms
  by (auto simp: handleImport_def imports_unique_def alert_def
      split: option.splits jsval.splits)

lemma has_id_id_of: "has_id x \<Longrightarrow> primitive (id_of x) \<and> \<not> nullish (id_of x)"
  by (cases x) (simp_all add: id_of_def)

lemma strict_eq_has_id:
  "strict_eq a b \<Longrightarrow> primitive a \<Longrightarrow> \<not> nullish a \<Longrightarrow> primitive b \<and> \<not> nullish b"
  by (cases a; cases b) simp_all

lemma has_id_updatedEvent:
  assumes "primitive (id_of sel)" and "\<not> nullish (id_of sel)"
  shows "has_id (updatedEvent sel f)"
proof -
  have "obj_get (put_all (own_props sel) (form_fields f)) (js ''id'') = id_of sel"
    using updatedEvent_id [of sel f] by (simp add: updatedEvent_def)
  with assms show ?thesis by (simp add: updatedEvent_def)
qed

lemma has_id_edit:
  assumes "list_all has_id (items s)" and "handleEditSubmit f s = Inr s'"
  shows "list_all has_id (items s')"
proof -
  let ?u = "updatedEvent (selectedEvent s) f"
  from assms(2) obtain ys where r: "replace_by_id (id_of (selectedEvent s)) ?u (items s) = Inr ys"
    and s': "items s' = ys"
    by (auto simp: handleEditSubmit_def Let_def updatedEvent_id split: sum.splits)
  from replace_by_id_Inr [OF r]
  have ys: "ys = map (\<lambda>x. if strict_eq (id_of x) (id_of (selectedEvent s)) then ?u else x) (items s)"
    by simp
  have "has_id (if strict_eq (id_of x) (id_of (selectedEvent s)) then ?u else x)"
    if x: "x \<in> set (items s)" for x
  proof (cases "strict_eq (id_of x) (id_of (selectedEvent s))")
    case True
    from x assms(1) have "has_id x" by (simp add: list_all_iff)
    from strict_eq_has_id [OF True] has_id_id_of [OF this]
    have "primitive (id_of (selectedEvent s)) \<and> \<not> nullish (id_of (selectedEvent s))" by simp
    with True show ?thesis by (simp add: has_id_updatedEvent)
  next
    case False
    with x assms(1) show ?thesis by (simp add: list_all_iff)
  qed
  then show ?thesis
    unfolding s' ys list_all_iff set_map by blast
qed

lemma has_id_delete:
  assumes "list_all has_id (items s)" and "handleDeleteEvent s = Inr s'"
  shows "list_all has_id (items s')"
proof (cases "truthy (selectedEvent s)")
  case False
  with assms show ?thesis by (simp add: handleDeleteEvent_def)
next
  case True
  with assms(2) obtain sid ys where "filter_other_ids sid (items s) = Inr ys" and "items s' = ys"
    by (auto simp: handleDeleteEvent_def split: sum.splits)
  with filter_other_ids_Inr [of sid "items s" ys] assms(1) show ?thesis
    by (simp add: list_all_iff)
qed

lemma import_file_items:
  assumes "list_all has_id (items (handleImport fl s))"
  shows "items (import_file r fl s) = items (handleImport fl s)"
proof (cases fl)
  case None
  then show ?thesis by (simp add: import_file_def handleImport_def)
next
  case (Some doc)
  show ?thesis
  proof (cases "JSON_parse doc")
    case None
    with Some show ?thesis by (simp add: import_file_def)
  next
    case (Some v)
    with \<open>fl = Some doc\<close> assms show ?thesis
      by (cases v) (simp_all add: import_file_def after_render_items_has_id)
  qed
qed

text \<open>
  In the states of \<open>reachable_unique\<close> every record carries an id, so the timeline has
  no id to write and each render leaves the items the handler has set.
\<close>

lemma reachable_unique_inv:
  "reachable_unique s \<Longrightarrow> unique_ids (items s) \<and> list_all has_id (items s)"
proof (induction rule: reachable_unique.induct)
  case u_init
  show ?case by (simp add: empty_app_def)
next
  case (u_add s now r f)
  then have h: "list_all has_id (items (handleAddEvent now f s))"
    by (simp add: handleAddEvent_def newEvent_has_id)
  from u_add have "unique_ids (items (handleAddEvent now f s))"
    by (simp add: unique_ids_add)
  with h show ?case
    by (simp add: add_event_def after_render_items_has_id)
next
  case (u_edit s r f)
  show ?case
  proof (cases "handleEditSubmit f s")
    case (Inl e)
    with u_edit show ?thesis by (simp add: edit_event_def)
  next
    case (Inr s')
    with u_edit have h: "list_all has_id (items s')" and u: "unique_ids (items s')"
      by (blast intro: has_id_edit unique_ids_edit)+
    with Inr show ?thesis
      by (simp add: edit_event_def after_render_items_has_id)
  qed
next
  case (u_delete s r)
  show ?case
  proof (cases "handleDeleteEvent s")
    case (Inl e)
    with u_delete show ?thesis by (simp add: delete_event_def)
  next
    case (Inr s')
    with u_delete have h: "list_all has_id (items s')" and u: "unique_ids (items s')"
      by (blast intro: has_id_delete unique_ids_delete)+
    with Inr u_delete show ?thesis
      by (simp add: delete_event_def after_render_items_has_id)
  qed
next
  case (u_import s fl r)
  then have h: "list_all has_id (items (handleImport fl s))"
    and u: "unique_ids (items (handleImport fl s))"
    by (simp_all add: has_id_import unique_ids_import)
  then show ?case
    by (simp add: import_file_items)
qed simp_all

text \<open>
  The claim C7 says that no reachable store holds two records with the same id.
  \<^verbatim>\<open>handleImport\<close> installs the parsed array as it is: one import from the empty store
  yields two records with the id \<^verbatim>\<open>"1"\<close>. (The timeline throws on them; they are the
  value of \<^verbatim>\<open>items\<close> all the same.)
\<close>

theorem import_breaks_unique_ids:
  "reachable (import_file Throws (Some dup_text) empty_app)
   \<and> items (handleImport (Some dup_text) empty_app) = [rec_a, rec_b]
   \<and> items (import_file Throws (Some dup_text) empty_app) = [rec_a, rec_b]
   \<and> same_id rec_a rec_b
   \<and> \<not> unique_ids (items (handleImport (Some dup_text) empty_app))
   \<and> \<not> unique_ids (items (import_file Throws (Some dup_text) empty_app))"
proof -
  have i: "items (handleImport (Some dup_text) empty_app) = [rec_a, rec_b]"
    by (simp add: handleImport_def parse_dup_text)
  have s: "same_id rec_a rec_b"
    by (simp add: same_id_def rec_ids) (simp add: rec_a_def rec_b_def)
  from reachable_dup_import dup_import_items i s show ?thesis by simp
qed

text \<open>
  C7, amended. No two records share an id in any state reached from the empty store by
  adds at a time that is not already the id of a stored record, by edits and deletes,
  and by imports whose array consists of records that carry an id, no two of them the
  same (together with export, selection, the edit-mode buttons and the deferred
  selection, which leave the store alone).
\<close>

theorem unique_ids_invariant:
  "reachable_unique s \<Longrightarrow> unique_ids (items s)"
  by (simp add: reachable_unique_inv)

theorem unique_ids_invariant_witness:
  "reachable_unique two_app
   \<and> items two_app = [newEvent 5 launch_form, newEvent 7 launch_form]
   \<and> unique_ids (items two_app)
   \<and> \<not> same_id (newEvent 5 launch_form) (newEvent 7 launch_form)
   \<and> reachable_unique (import_file (Returns sample_ids) (Some pair_text) two_app)
   \<and> items (import_file (Returns sample_ids) (Some pair_text) two_app) = [rec_other, rec_next]
   \<and> unique_ids (items (import_file (Returns sample_ids) (Some pair_text) two_app))
   \<and> \<not> same_id rec_other rec_next"
proof -
  have f5: "fresh_id 5 (items empty_app)"
    by (simp add: fresh_id_def)
  have one: "reachable_unique (add_event (Returns sample_ids) 5 launch_form empty_app)"
    by (intro u_add u_init f5) simp
  have f7: "fresh_id 7 (items (add_event (Returns sample_ids) 5 launch_form empty_app))"
    by (simp add: fresh_id_def add_event_def handleAddEvent_def write_ids_has_id newEvent_has_id
        newEvent_not_lacks newEvent_id decimal_5_7)
  have r: "reachable_unique two_app"
    unfolding two_app_def
    by (intro u_select u_add one f7) (simp_all add: add_event_def handleAddEvent_def)
  have iu: "imports_unique (Some pair_text)"
    by (simp add: imports_unique_def parse_pair_text rec_other_id rec_next_id same_id_def)
  have r2: "reachable_unique (import_file (Returns sample_ids) (Some pair_text) two_app)"
    by (intro u_import r iu) (simp add: two_app_fields)
  have i2: "items (import_file (Returns sample_ids) (Some pair_text) two_app)
      = [rec_other, rec_next]"
    by (simp add: import_file_def handleImport_def parse_pair_text write_ids_has_id
        rec_other_id rec_next_id)
  from unique_ids_invariant [OF r] unique_ids_invariant [OF r2] r r2 i2 show ?thesis
    by (simp add: two_app_fields newEvent_not_nullish rec_other_id rec_next_id)
qed

subsection \<open>The round trip of JSON text\<close>

text \<open>
  \<^verbatim>\<open>JSON.parse\<close> reads back what \<^verbatim>\<open>JSON.stringify\<close> writes. The proof goes through the
  tokens of a value: the automaton builds the value from its tokens, and the lexer
  finds the tokens in the text, whatever the indentation.
\<close>

fun toks :: "jsval \<Rightarrow> token list"
  and toks_elems :: "jsval list \<Rightarrow> token list"
  and toks_members :: "(jstring \<times> jsval) list \<Rightarrow> token list"
where
  "toks JUndefined = []"
| "toks JNull = [TNull]"
| "toks (JBool b) = [if b then TTrue else TFalse]"
| "toks (JNum x) = [TNum x]"
| "toks (JStr s) = [TStr s]"
| "toks (JArr xs) = [TLBracket] @ toks_elems xs @ [TRBracket]"
| "toks (JObj ps) = [TLBrace] @ toks_members ps @ [TRBrace]"
| "toks_elems [] = []"
| "toks_elems (x # xs) = toks x @ (if xs = [] then [] else TComma # toks_elems xs)"
| "toks_members [] = []"
| "toks_members (p # ps) =
     [TStr (fst p), TColon] @ toks (snd p) @ (if ps = [] then [] else TComma # toks_members ps)"

lemma prun_None [simp]: "(case None of None \<Rightarrow> None | Some c' \<Rightarrow> prun c' ts) = None"
  by simp

definition after :: "jsval \<Rightarrow> frame list \<Rightarrow> token list \<Rightarrow> jsval option" where
  "after v st rest = (case complete v st of None \<Rightarrow> None | Some c \<Rightarrow> prun c rest)"

lemma put_all_snoc: "put_all ps (kvs @ [kv]) = obj_put (put_all ps kvs) (fst kv) (snd kv)"
  by (simp add: put_all_def)

lemma obj_put_fresh: "k \<notin> fst ` set ps \<Longrightarrow> obj_put ps k v = ps @ [(k, v)]"
  by (induction ps) auto

lemma parse_toks:
  "jsonable v \<Longrightarrow> m = PValue \<or> m = PValueOrEnd \<Longrightarrow>
     prun (m, st) (toks v @ rest) = after v st rest"
  and parse_toks_elems:
  "jsonable_elems xs \<Longrightarrow> xs \<noteq> [] \<Longrightarrow> m = PValue \<or> m = PValueOrEnd \<Longrightarrow>
     prun (m, FArr acc # st) (toks_elems xs @ TRBracket # rest) = after (JArr (acc @ xs)) st rest"
  and parse_toks_members:
  "jsonable_members ps \<Longrightarrow> ps \<noteq> [] \<Longrightarrow> distinct (map fst (accp @ ps)) \<Longrightarrow> m' = PKey \<or> m' = PKeyOrEnd \<Longrightarrow>
     prun (m', FObj accp # st) (toks_members ps @ TRBrace # rest) = after (JObj (accp @ ps)) st rest"
proof (induction v and xs and ps arbitrary: m st rest and m acc st rest and m' accp st rest rule: toks_toks_elems_toks_members.induct)
  case 1
  then show ?case by simp
next
  case 2
  then show ?case by (auto simp: after_def)
next
  case (3 b)
  then show ?case by (auto simp: after_def)
next
  case (4 x)
  then show ?case by (auto simp: after_def)
next
  case (5 s)
  then show ?case by (auto simp: after_def)
next
  case (6 xs)
  show ?case
  proof (cases "xs = []")
    case True
    with "6.prems" show ?thesis by (auto simp: after_def)
  next
    case False
    with "6.prems" have "prun (PValueOrEnd, FArr [] # st) (toks_elems xs @ TRBracket # rest)
        = after (JArr ([] @ xs)) st rest"
      by (intro "6.IH") auto
    with "6.prems" show ?thesis by auto
  qed
next
  case (7 ps)
  show ?case
  proof (cases "ps = []")
    case True
    with "7.prems" show ?thesis by (auto simp: after_def)
  next
    case False
    with "7.prems" have "prun (PKeyOrEnd, FObj [] # st) (toks_members ps @ TRBrace # rest)
        = after (JObj ([] @ ps)) st rest"
      by (intro "7.IH") auto
    with "7.prems" show ?thesis by auto
  qed
next
  case 8
  then show ?case by simp
next
  case (9 x xs)
  from "9.prems" have jx: "jsonable x" and jxs: "jsonable_elems xs" by simp_all
  have step: "prun (m, FArr acc # st) (toks x @ r) = prun (PNext, FArr (acc @ [x]) # st) r" for r
    using "9.IH"(1) [OF jx "9.prems"(3), of "FArr acc # st" r] by (simp add: after_def)
  show ?case
  proof (cases "xs = []")
    case True
    then show ?thesis by (simp add: step after_def)
  next
    case False
    have "prun (PValue, FArr (acc @ [x]) # st) (toks_elems xs @ TRBracket # rest)
        = after (JArr ((acc @ [x]) @ xs)) st rest"
      by (rule "9.IH"(2) [OF False jxs False]) simp
    with False show ?thesis by (simp add: step)
  qed
next
  case 10
  then show ?case by simp
next
  case (11 p ps)
  obtain k v where p: "p = (k, v)" by (cases p)
  from "11.prems" p have jv: "jsonable v" and jps: "jsonable_members ps"
    and fresh: "k \<notin> fst ` set accp" and d: "distinct (map fst ((accp @ [(k, v)]) @ ps))"
    by auto
  have key: "prun (m', FObj accp # st) (TStr k # TColon # r) = prun (PValue, FKey accp k # st) r" for r
    using "11.prems"(4) by auto
  have step: "prun (PValue, FKey accp k # st) (toks v @ r)
      = prun (PNext, FObj (accp @ [(k, v)]) # st) r" for r
    using "11.IH"(1) [of PValue "FKey accp k # st" r] jv p
    by (simp add: after_def obj_put_fresh [OF fresh])
  define r' where "r' = (if ps = [] then [] else TComma # toks_members ps) @ TRBrace # rest"
  have "prun (m', FObj accp # st) (toks_members (p # ps) @ TRBrace # rest)
      = prun (m', FObj accp # st) (TStr k # TColon # (toks v @ r'))"
    by (simp add: p r'_def)
  also have "\<dots> = prun (PValue, FKey accp k # st) (toks v @ r')" by (rule key)
  also have "\<dots> = prun (PNext, FObj (accp @ [(k, v)]) # st) r'" by (rule step)
  finally have start: "prun (m', FObj accp # st) (toks_members (p # ps) @ TRBrace # rest)
      = prun (PNext, FObj (accp @ [(k, v)]) # st) r'" .
  show ?case
  proof (cases "ps = []")
    case True
    then show ?thesis unfolding start by (simp add: p r'_def after_def)
  next
    case False
    have "prun (PKey, FObj (accp @ [(k, v)]) # st) (toks_members ps @ TRBrace # rest)
        = after (JObj ((accp @ [(k, v)]) @ ps)) st rest"
      by (rule "11.IH"(2) [OF False jps False d]) simp
    with False show ?thesis unfolding start by (simp add: p r'_def)
  qed
qed

lemma parse_toks_top: "jsonable v \<Longrightarrow> prun (PValue, []) (toks v) = Some v"
  using parse_toks [of v PValue "[]" "[]"] by (simp add: after_def)

lemma hexval_hexdigit: "d < 16 \<Longrightarrow> hexval (hexdigit d) = Some d"
proof -
  assume "d < 16"
  then have "d = 0 \<or> d = 1 \<or> d = 2 \<or> d = 3 \<or> d = 4 \<or> d = 5 \<or> d = 6 \<or> d = 7 \<or> d = 8
      \<or> d = 9 \<or> d = 10 \<or> d = 11 \<or> d = 12 \<or> d = 13 \<or> d = 14 \<or> d = 15"
    by arith
  then show ?thesis by (elim disjE) (simp_all add: hexval_def hexdigit_def)
qed

lemma hex_recombine:
  fixes n :: nat
  shows "((n div 4096 * 16 + n div 256 mod 16) * 16 + n div 16 mod 16) * 16 + n mod 16 = n"
proof -
  have a: "n div 4096 = n div 256 div 16" by (simp add: div_mult2_eq)
  have b: "n div 256 = n div 16 div 16" by (simp add: div_mult2_eq)
  have "n div 4096 * 16 + n div 256 mod 16 = n div 256"
    unfolding a by (rule div_mult_mod_eq)
  moreover have "n div 256 * 16 + n div 16 mod 16 = n div 16"
    unfolding b by (rule div_mult_mod_eq)
  moreover have "n div 16 * 16 + n mod 16 = n" by (rule div_mult_mod_eq)
  ultimately show ?thesis by simp
qed

lemma hex4_hexdigits:
  "hex4 (hexdigit (unat c div 4096)) (hexdigit (unat c div 256 mod 16))
     (hexdigit (unat c div 16 mod 16)) (hexdigit (unat c mod 16)) = Some c"
proof -
  have n: "unat c < 65536" using unsigned_less [of c, where ?'a = nat] by simp
  then have d: "unat c div 4096 < 16" "unat c div 256 mod 16 < 16" "unat c div 16 mod 16 < 16"
    "unat c mod 16 < 16" by simp_all
  have "hex4 (hexdigit (unat c div 4096)) (hexdigit (unat c div 256 mod 16))
      (hexdigit (unat c div 16 mod 16)) (hexdigit (unat c mod 16))
    = Some (of_nat (((unat c div 4096 * 16 + unat c div 256 mod 16) * 16
        + unat c div 16 mod 16) * 16 + unat c mod 16))"
    by (simp only: hex4_def hexval_hexdigit d prod.case option.case)
  also have "\<dots> = Some (of_nat (unat c))" by (simp only: hex_recombine)
  also have "\<dots> = Some c" by simp
  finally show ?thesis .
qed

lemma scan_unicode:
  "hex4 h1 h2 h3 h4 = Some u \<Longrightarrow>
   scan_string (0x5C # 0x75 # h1 # h2 # h3 # h4 # X) = cons_fst u (scan_string X)"
  by simp

lemma scan_escape:
  "scan_string (UnicodeEscape c @ X) = cons_fst c (scan_string X)"
  unfolding UnicodeEscape_def Let_def
  by (simp only: append_Cons append_Nil scan_unicode [OF hex4_hexdigits])

lemma scan_plain:
  "c \<noteq> 0x22 \<Longrightarrow> c \<noteq> 0x5C \<Longrightarrow> \<not> c < 0x20 \<Longrightarrow>
   scan_string (c # X) = cons_fst c (scan_string X)"
  by simp

lemma scan_short:
  "e \<noteq> 0x75 \<Longrightarrow> unescape e = Some u \<Longrightarrow>
   scan_string (0x5C # e # X) = cons_fst u (scan_string X)"
  by simp

lemma surrogate_plain:
  "is_high c \<or> is_low c \<Longrightarrow> c \<noteq> 0x22 \<and> c \<noteq> 0x5C \<and> \<not> c < 0x20"
proof -
  assume "is_high c \<or> is_low c"
  then have ge: "0xD800 \<le> c"
  proof
    assume "is_high c"
    then show ?thesis by (simp add: is_high_def)
  next
    assume "is_low c"
    then have "0xDC00 \<le> c" by (simp add: is_low_def)
    moreover have "(0xD800 :: cunit) \<le> 0xDC00" by simp
    ultimately show ?thesis by (rule order_trans [rotated])
  qed
  have "\<not> c < 0x20"
  proof
    assume "c < 0x20"
    with ge have "(0xD800 :: cunit) < 0x20" by (rule le_less_trans)
    then show False by simp
  qed
  moreover from ge have "c \<noteq> 0x22" "c \<noteq> 0x5C" by auto
  ultimately show ?thesis by simp
qed

lemma scan_quote_chars:
  "scan_string (quote_chars s @ 0x22 # rest) = Some (s, rest)"
proof (induction "length s" arbitrary: s rule: less_induct)
  case less
  show ?case
  proof (cases s)
    case Nil
    then show ?thesis by simp
  next
    case (Cons c cs)
    have IH: "scan_string (quote_chars cs @ 0x22 # rest) = Some (cs, rest)"
      using less [of cs] Cons by simp
    let ?short = "c = 0x08 \<or> c = 0x09 \<or> c = 0x0A \<or> c = 0x0C \<or> c = 0x0D \<or> c = 0x22 \<or> c = 0x5C"
    consider (short) ?short
      | (ctl) "\<not> ?short" "c < 0x20"
      | (pair) d ds where "\<not> ?short" "\<not> c < 0x20" "is_high c" "cs = d # ds" "is_low d"
      | (lone1) "\<not> ?short" "\<not> c < 0x20" "is_high c" "cs = []"
      | (lone2) d ds where "\<not> ?short" "\<not> c < 0x20" "is_high c" "cs = d # ds" "\<not> is_low d"
      | (lone3) "\<not> ?short" "\<not> c < 0x20" "\<not> is_high c" "is_low c"
      | (plain) "\<not> ?short" "\<not> c < 0x20" "\<not> is_high c" "\<not> is_low c"
      by (cases cs) blast+
    then show ?thesis
    proof cases
      case short
      then show ?thesis
        unfolding Cons by (auto simp: IH unescape_def cons_fst_def)
    next
      case ctl
      then have "quote_chars (c # cs) = UnicodeEscape c @ quote_chars cs" by simp
      then show ?thesis unfolding Cons by (simp add: scan_escape IH cons_fst_def)
    next
      case pair
      have IH2: "scan_string (quote_chars ds @ 0x22 # rest) = Some (ds, rest)"
        using less [of ds] Cons pair by simp
      from pair have q: "quote_chars (c # d # ds) = c # d # quote_chars ds" by simp
      from pair surrogate_plain [of d] have dp: "d \<noteq> 0x22" "d \<noteq> 0x5C" "\<not> d < 0x20" by simp_all
      from pair have cp: "c \<noteq> 0x22" "c \<noteq> 0x5C" by simp_all
      show ?thesis
        unfolding Cons pair(4) q
        by (simp only: append_Cons scan_plain [OF cp pair(2)] scan_plain [OF dp] IH2)
          (simp add: cons_fst_def)
    next
      case lone1
      then have "quote_chars (c # cs) = UnicodeEscape c @ quote_chars cs" by simp
      then show ?thesis unfolding Cons by (simp add: scan_escape IH cons_fst_def)
    next
      case lone2
      then have "quote_chars (c # cs) = UnicodeEscape c @ quote_chars cs" by simp
      then show ?thesis unfolding Cons by (simp add: scan_escape IH cons_fst_def)
    next
      case lone3
      then have "quote_chars (c # cs) = UnicodeEscape c @ quote_chars cs" by simp
      then show ?thesis unfolding Cons by (simp add: scan_escape IH cons_fst_def)
    next
      case plain
      then have q: "quote_chars (c # cs) = c # quote_chars cs" by simp
      from plain have cp: "c \<noteq> 0x22" "c \<noteq> 0x5C" by simp_all
      show ?thesis
        unfolding Cons q
        by (simp only: append_Cons scan_plain [OF cp plain(2)] IH) (simp add: cons_fst_def)
    qed
  qed
qed

lemma lex_string:
  "lex (QuoteJSONString s @ rest) = map_option (Cons (TStr s)) (lex rest)"
  by (simp add: QuoteJSONString_def lex.simps(2) is_json_ws_def scan_quote_chars)

definition delim :: "jstring \<Rightarrow> bool" where
  "delim rest = (case rest of [] \<Rightarrow> True | c # _ \<Rightarrow> c = 0x2C \<or> c = 0x5D \<or> c = 0x7D \<or> c = 0x0A)"

lemma delim_stop: "delim rest \<Longrightarrow> takeWhile is_digit rest = []"
  by (cases rest) (auto simp: delim_def is_digit_def)

lemma delim_fraction: "delim rest \<Longrightarrow> scan_fraction rest = Some ([], rest)"
  by (cases rest) (auto simp: delim_def scan_fraction_def)

lemma delim_exponent: "delim rest \<Longrightarrow> scan_exponent rest = Some (0, rest)"
  by (cases rest) (auto simp: delim_def scan_exponent_def)

lemma takeWhile_digits:
  "list_all is_digit ds \<Longrightarrow> takeWhile is_digit t = [] \<Longrightarrow> takeWhile is_digit (ds @ t) = ds"
  by (induction ds) simp_all

lemma dropWhile_digits:
  "list_all is_digit ds \<Longrightarrow> takeWhile is_digit t = [] \<Longrightarrow> dropWhile is_digit (ds @ t) = t"
proof (induction ds)
  case Nil
  then show ?case by (cases t) (auto split: if_splits)
next
  case (Cons d ds)
  then show ?case by simp
qed

lemma digit_val_char: "d < 10 \<Longrightarrow> digit_val (digit_char d) = d"
proof -
  assume "d < 10"
  then have "d = 0 \<or> d = 1 \<or> d = 2 \<or> d = 3 \<or> d = 4 \<or> d = 5 \<or> d = 6 \<or> d = 7 \<or> d = 8 \<or> d = 9"
    by arith
  then show ?thesis by (elim disjE) (simp_all add: digit_val_def digit_char_def)
qed

lemma nat_of_digits_snoc:
  "nat_of_digits (ds @ [c]) = 10 * nat_of_digits ds + digit_val c"
  by (simp add: nat_of_digits_def)

lemma nat_of_digits_decimal: "nat_of_digits (decimal m) = m"
proof (induction m rule: decimal.induct)
  case (1 n)
  show ?case
  proof (cases "n < 10")
    case True
    then show ?thesis
      by (subst decimal.simps) (simp add: nat_of_digits_def digit_val_char)
  next
    case False
    with "1.IH" show ?thesis
      by (subst decimal.simps) (simp add: nat_of_digits_snoc digit_val_char)
  qed
qed

lemma decimal_all_digits: "list_all is_digit (decimal m)"
  using decimal_digits [of m] by (auto simp: list_all_iff)

lemma strip0_zeros: "strip0 (replicate k 0x30 @ xs) = strip0 xs"
  by (induction k) (simp_all add: strip0_def)

lemma strip0_id: "xs = [] \<or> hd xs \<noteq> 0x30 \<Longrightarrow> strip0 xs = xs"
  by (cases xs) (auto simp: strip0_def)

lemma canonical_strip:
  assumes "canonical ds"
  shows "strip0 ds = ds" and "rev (strip0 (rev ds)) = ds"
    and "rev (strip0 (rev (ds @ replicate k 0x30))) = ds"
proof -
  from assms have ne: "ds \<noteq> []" and h: "hd ds \<noteq> 0x30" and l: "last ds \<noteq> 0x30"
    by (simp_all add: canonical_def)
  show "strip0 ds = ds" using h by (simp add: strip0_id)
  have r: "strip0 (rev ds) = rev ds"
    using ne l by (intro strip0_id) (simp add: hd_rev)
  then show "rev (strip0 (rev ds)) = ds" by simp
  show "rev (strip0 (rev (ds @ replicate k 0x30))) = ds"
    by (simp add: strip0_zeros r)
qed

lemma is_digit_0 [simp]: "is_digit 0x30"
  by (simp add: is_digit_def)

lemma scan_unsigned_parts:
  assumes "list_all is_digit ip" and "ip \<noteq> []" and "hd ip \<noteq> 0x30 \<or> tl ip = []"
    and "takeWhile is_digit t = []"
    and "scan_fraction t = Some (fp, mid)" and "scan_exponent mid = Some (e, out)"
  shows "scan_unsigned neg (ip @ t) = Some (mk_num neg ip fp e, out)"
  using assms
  by (auto simp: scan_unsigned_def Let_def takeWhile_digits dropWhile_digits)

lemma scan_fraction_digits:
  assumes "list_all is_digit fp" and "fp \<noteq> []" and "takeWhile is_digit t = []"
  shows "scan_fraction (0x2E # fp @ t) = Some (fp, t)"
  using assms by (simp add: scan_fraction_def takeWhile_digits dropWhile_digits)

lemma scan_exponent_digits:
  assumes "list_all is_digit ed" and "ed \<noteq> []" and "takeWhile is_digit t = []"
  shows "scan_exponent (0x65 # 0x2D # ed @ t) = Some (- int (nat_of_digits ed), t)"
    and "scan_exponent (0x65 # 0x2B # ed @ t) = Some (int (nat_of_digits ed), t)"
  using assms by (simp_all add: scan_exponent_def takeWhile_digits dropWhile_digits)

lemma stop_dot [simp]: "takeWhile is_digit (0x2E # t) = []"
  by (simp add: is_digit_def)

lemma stop_e [simp]: "takeWhile is_digit (0x65 # t) = []"
  by (simp add: is_digit_def)

lemma canonical_parts:
  "canonical ds \<Longrightarrow> list_all is_digit ds \<and> ds \<noteq> [] \<and> hd ds \<noteq> 0x30"
  by (simp add: canonical_def)

lemma mk_num_int:
  assumes "canonical ds"
  shows "mk_num neg (ds @ replicate m 0x30) [] 0 = Dec neg ds (int (length ds) + int m)"
proof -
  from assms have ne: "ds \<noteq> []" and h: "hd ds \<noteq> 0x30" by (simp_all add: canonical_def)
  then have s: "strip0 (ds @ replicate m 0x30) = ds @ replicate m 0x30"
    by (intro strip0_id) simp
  show ?thesis
    using ne by (simp add: mk_num_def s canonical_strip(3) [OF assms] del: rev_append rev_replicate)
qed

lemma mk_num_split:
  assumes "canonical ds"
  shows "mk_num neg (take i ds) (drop i ds) e = Dec neg ds (int (length ds) + e - int (length ds - i))"
  using assms canonical_strip(1,2) [OF assms]
  by (simp add: mk_num_def canonical_def)

lemma mk_num_small:
  assumes "canonical ds"
  shows "mk_num neg [0x30] (replicate m 0x30 @ ds) 0 = Dec neg ds (- int m)"
proof -
  have "strip0 ([0x30] @ replicate m 0x30 @ ds) = ds"
    using strip0_zeros [of "Suc m" ds] canonical_strip(1) [OF assms] by simp
  then show ?thesis
    using assms canonical_strip(2) [OF assms] by (simp add: mk_num_def canonical_def)
qed

lemma scan_pos_text:
  assumes c: "canonical ds" and d: "delim rest"
  shows "scan_unsigned neg (pos_text ds n @ rest) = Some (Dec neg ds n, rest)"
proof -
  note cp = canonical_parts [OF c]
  note st = delim_stop [OF d]
  let ?k = "int (length ds)"
  consider (A) "?k \<le> n" "n \<le> 21"
    | (B) "\<not> (?k \<le> n \<and> n \<le> 21)" "0 < n" "n \<le> 21"
    | (C) "\<not> (?k \<le> n \<and> n \<le> 21)" "\<not> (0 < n \<and> n \<le> 21)" "- 6 < n" "n \<le> 0"
    | (D) "\<not> (?k \<le> n \<and> n \<le> 21)" "\<not> (0 < n \<and> n \<le> 21)" "\<not> (- 6 < n \<and> n \<le> 0)"
    by blast
  then show ?thesis
  proof cases
    case A
    let ?ip = "ds @ replicate (nat (n - ?k)) 0x30"
    have p: "pos_text ds n = ?ip" using A by (simp add: pos_text_def)
    have ip: "list_all is_digit ?ip" "?ip \<noteq> []" "hd ?ip \<noteq> 0x30 \<or> tl ?ip = []"
      using cp by (auto simp: list_all_iff)
    have "scan_unsigned neg (?ip @ rest) = Some (mk_num neg ?ip [] 0, rest)"
      by (rule scan_unsigned_parts [where mid = rest, OF ip st delim_fraction [OF d]
            delim_exponent [OF d]])
    then show ?thesis using A by (simp only: p mk_num_int [OF c]) simp
  next
    case B
    then have lt: "nat n < length ds" by linarith
    let ?ip = "take (nat n) ds" and ?fp = "drop (nat n) ds"
    have p: "pos_text ds n @ rest = ?ip @ (0x2E # ?fp @ rest)"
      using B by (simp add: pos_text_def)
    have ip: "list_all is_digit ?ip" "?ip \<noteq> []" "hd ?ip \<noteq> 0x30 \<or> tl ?ip = []"
      using cp B lt by (auto simp: list_all_iff dest: in_set_takeD)
    have fp: "list_all is_digit ?fp" "?fp \<noteq> []"
      using cp lt by (auto simp: list_all_iff dest: in_set_dropD)
    have "scan_unsigned neg (?ip @ (0x2E # ?fp @ rest)) = Some (mk_num neg ?ip ?fp 0, rest)"
      by (rule scan_unsigned_parts [where mid = rest, OF ip stop_dot
            scan_fraction_digits [OF fp st] delim_exponent [OF d]])
    then show ?thesis using B lt by (simp only: p mk_num_split [OF c]) simp
  next
    case C
    let ?fp = "replicate (nat (- n)) 0x30 @ ds"
    have p: "pos_text ds n @ rest = [0x30] @ (0x2E # ?fp @ rest)"
      using C by (simp add: pos_text_def)
    have ip: "list_all is_digit [0x30 :: cunit]" "[0x30 :: cunit] \<noteq> []"
      "hd [0x30 :: cunit] \<noteq> 0x30 \<or> tl [0x30 :: cunit] = []"
      by simp_all
    have fp: "list_all is_digit ?fp" "?fp \<noteq> []"
      using cp by (auto simp: list_all_iff)
    have "scan_unsigned neg ([0x30] @ (0x2E # ?fp @ rest)) = Some (mk_num neg [0x30] ?fp 0, rest)"
      by (rule scan_unsigned_parts [where mid = rest, OF ip stop_dot
            scan_fraction_digits [OF fp st] delim_exponent [OF d]])
    then show ?thesis using C by (simp only: p mk_num_small [OF c]) simp
  next
    case D
    have p0: "pos_text ds n =
        (case ds of [] \<Rightarrow> [] | d # r \<Rightarrow> if r = [] then [d] else d # 0x2E # r)
        @ [0x65, if n - 1 < 0 then 0x2D else 0x2B] @ decimal (nat \<bar>n - 1\<bar>)"
      by (simp only: pos_text_def Let_def D if_False)
    from cp obtain d0 r where ds: "ds = d0 # r" by (cases ds) auto
    let ?ed = "decimal (nat \<bar>n - 1\<bar>)"
    let ?t = "0x65 # (if n - 1 < 0 then 0x2D else 0x2B) # ?ed @ rest"
    have ed: "list_all is_digit ?ed" "?ed \<noteq> []"
      by (simp_all add: decimal_all_digits decimal_nonempty)
    have ex: "scan_exponent ?t = Some (n - 1, rest)"
      using scan_exponent_digits [OF ed st] by (auto simp: nat_of_digits_decimal)
    have mk: "mk_num neg [d0] r (n - 1) = Dec neg ds n"
      using mk_num_split [OF c, of neg 1 "n - 1"] by (simp add: ds)
    have ip: "list_all is_digit [d0]" "[d0] \<noteq> []" "hd [d0] \<noteq> 0x30 \<or> tl [d0] = []"
      using cp ds by simp_all
    show ?thesis
    proof (cases "r = []")
      case True
      have p: "pos_text ds n @ rest = [d0] @ ?t"
        unfolding p0 using True by (simp add: ds)
      have fr: "scan_fraction ?t = Some ([], ?t)"
        by (simp add: scan_fraction_def)
      have "scan_unsigned neg ([d0] @ ?t) = Some (mk_num neg [d0] [] (n - 1), rest)"
        by (rule scan_unsigned_parts [where mid = ?t, OF ip stop_e fr ex])
      with True mk show ?thesis by (simp only: p)
    next
      case False
      have p: "pos_text ds n @ rest = [d0] @ (0x2E # r @ ?t)"
        unfolding p0 using False by (simp add: ds)
      have r: "list_all is_digit r" using cp ds by simp
      have fr: "scan_fraction (0x2E # r @ ?t) = Some (r, ?t)"
        by (rule scan_fraction_digits [OF r False stop_e])
      have "scan_unsigned neg ([d0] @ (0x2E # r @ ?t)) = Some (mk_num neg [d0] r (n - 1), rest)"
        by (rule scan_unsigned_parts [where mid = ?t, OF ip stop_dot fr ex])
      with mk show ?thesis by (simp only: p)
    qed
  qed
qed

lemma scan_zero:
  assumes "delim rest"
  shows "scan_unsigned False (0x30 # rest) = Some (Zero False, rest)"
proof -
  have ip: "list_all is_digit [0x30 :: cunit]" "[0x30 :: cunit] \<noteq> []"
    "hd [0x30 :: cunit] \<noteq> 0x30 \<or> tl [0x30 :: cunit] = []"
    by simp_all
  have "scan_unsigned False ([0x30] @ rest) = Some (mk_num False [0x30] [] 0, rest)"
    by (rule scan_unsigned_parts [where mid = rest, OF ip delim_stop [OF assms]
          delim_fraction [OF assms] delim_exponent [OF assms]])
  then show ?thesis by (simp add: mk_num_def strip0_def)
qed

definition spaces :: "jstring \<Rightarrow> bool" where
  "spaces s = list_all (\<lambda>c. c = 0x20) s"

lemma lex_ws: "is_json_ws c \<Longrightarrow> lex (c # s) = lex s"
  by (simp add: lex.simps(2))

lemma lex_wss: "list_all is_json_ws w \<Longrightarrow> lex (w @ s) = lex s"
  by (induction w) (simp_all add: lex_ws)

lemma spaces_ws: "spaces s \<Longrightarrow> list_all is_json_ws s"
  by (auto simp: spaces_def list_all_iff is_json_ws_def)

lemma spaces_append: "spaces a \<Longrightarrow> spaces b \<Longrightarrow> spaces (a @ b)"
  by (simp add: spaces_def)

lemma lex_newline: "lex (0x0A # s) = lex s"
  by (simp add: lex_ws is_json_ws_def)

lemma lex_space: "lex (0x20 # s) = lex s"
  by (simp add: lex_ws is_json_ws_def)

lemma lex_punct:
  "lex (0x5B # s) = map_option (Cons TLBracket) (lex s)"
  "lex (0x5D # s) = map_option (Cons TRBracket) (lex s)"
  "lex (0x7B # s) = map_option (Cons TLBrace) (lex s)"
  "lex (0x7D # s) = map_option (Cons TRBrace) (lex s)"
  "lex (0x2C # s) = map_option (Cons TComma) (lex s)"
  "lex (0x3A # s) = map_option (Cons TColon) (lex s)"
  by (simp_all add: lex.simps(2) is_json_ws_def)

lemma lex_literals:
  "lex (js ''null'' @ s) = map_option (Cons TNull) (lex s)"
  "lex (js ''true'' @ s) = map_option (Cons TTrue) (lex s)"
  "lex (js ''false'' @ s) = map_option (Cons TFalse) (lex s)"
  by (simp_all add: js_def lex.simps(2) is_json_ws_def is_digit_def)

lemma lex_digit_start:
  "is_digit d \<Longrightarrow>
   lex (d # t) = (case scan_unsigned False (d # t) of
                    None \<Rightarrow> None
                  | Some (x, r) \<Rightarrow> map_option (Cons (TNum x)) (lex r))"
  by (auto simp: lex.simps(2) is_digit_def is_json_ws_def scan_number_def)

lemma lex_minus_start:
  "lex (0x2D # t) = (case scan_unsigned True t of
                    None \<Rightarrow> None
                  | Some (x, r) \<Rightarrow> map_option (Cons (TNum x)) (lex r))"
  by (simp add: lex.simps(2) is_json_ws_def scan_number_def)

lemma pos_text_head:
  assumes "canonical ds"
  shows "\<exists>d t. pos_text ds n = d # t \<and> is_digit d"
proof -
  from assms obtain d0 r where ds: "ds = d0 # r" and d0: "is_digit d0"
    by (cases ds) (auto simp: canonical_def)
  show ?thesis
    by (cases "nat n") (auto simp: pos_text_def Let_def ds d0)
qed

lemma lex_number:
  assumes "json_num x" and "delim rest"
  shows "lex (Number_toString x @ rest) = map_option (Cons (TNum x)) (lex rest)"
proof (cases x)
  case (Zero neg)
  with assms show ?thesis
    by (simp add: js_def lex_digit_start scan_zero)
next
  case (Dec neg ds n)
  with assms have c: "canonical ds" by simp
  show ?thesis
  proof (cases neg)
    case True
    then show ?thesis
      by (simp add: Dec lex_minus_start scan_pos_text [OF c assms(2)])
  next
    case False
    from pos_text_head [OF c, of n] obtain d t where p: "pos_text ds n = d # t" and d: "is_digit d"
      by blast
    have "lex ((d # t) @ rest) = map_option (Cons (TNum x)) (lex rest)"
      using scan_pos_text [OF c assms(2), of False n] d
      by (simp add: lex_digit_start Dec False p)
    then show ?thesis by (simp add: Dec False p)
  qed
qed (use assms in simp_all)

lemma delim_simps [simp]:
  "delim (0x2C # s)" "delim (0x5D # s)" "delim (0x7D # s)" "delim (0x0A # s)" "delim []"
  by (simp_all add: delim_def)

lemma join_Cons: "join sep (t # ts) = t @ (if ts = [] then [] else sep @ join sep ts)"
  by (cases ts) simp_all

lemma ser_elems_Nil [simp]: "ser_elems gap ind xs = [] \<longleftrightarrow> xs = []"
  by (cases xs) simp_all

lemma wrap_empty: "wrap gap ind l r [] = [l, r]"
  by (simp add: wrap_def)

lemma lex_bracketed:
  assumes parts: "parts \<noteq> []"
    and inner: "\<And>w rest' ts'. list_all is_json_ws w \<Longrightarrow> delim rest' \<Longrightarrow> lex rest' = Some ts'
        \<Longrightarrow> lex (join (0x2C # w) parts @ rest') = Some (body @ ts')"
    and sp: "spaces gap" "spaces ind"
    and rest: "lex rest = Some ts"
    and l: "\<And>s. lex (l # s) = map_option (Cons lt) (lex s)"
    and r: "\<And>s. lex (r # s) = map_option (Cons rt) (lex s)"
    and dr: "delim (r # rest)"
  shows "lex (wrap gap ind l r parts @ rest) = Some ([lt] @ body @ [rt] @ ts)"
proof (cases "gap = []")
  case True
  have "lex (join (0x2C # []) parts @ (r # rest)) = Some (body @ (rt # ts))"
    by (rule inner) (simp_all add: dr r rest)
  with parts True show ?thesis by (simp add: wrap_def l)
next
  case False
  have w: "list_all is_json_ws (0x0A # ind @ gap)"
    using sp by (simp add: spaces_ws is_json_ws_def)
  have close: "lex (0x0A # ind @ r # rest) = Some (rt # ts)"
    by (simp add: lex_newline lex_wss [OF spaces_ws [OF sp(2)]] r rest)
  have "lex (join (0x2C # (0x0A # ind @ gap)) parts @ (0x0A # ind @ r # rest)) = Some (body @ (rt # ts))"
    by (rule inner [OF w _ close]) simp
  with parts False show ?thesis
    using lex_wss [OF spaces_ws [OF spaces_append [OF sp(2) sp(1)]]]
    by (simp add: wrap_def l lex_newline)
qed

lemma lex_ser:
  "jsonable v \<Longrightarrow> lex rest = Some ts \<Longrightarrow> delim rest \<Longrightarrow> spaces gap \<Longrightarrow> spaces ind \<Longrightarrow>
     \<exists>t. ser gap ind v = Some t \<and> lex (t @ rest) = Some (toks v @ ts)"
  and lex_ser_elems:
  "jsonable_elems xs \<Longrightarrow> xs \<noteq> [] \<Longrightarrow> lex rest = Some ts \<Longrightarrow> delim rest \<Longrightarrow> spaces gap \<Longrightarrow>
     spaces ind \<Longrightarrow> list_all is_json_ws w \<Longrightarrow>
     lex (join (0x2C # w) (ser_elems gap ind xs) @ rest) = Some (toks_elems xs @ ts)"
  and lex_ser_members:
  "jsonable_members ps \<Longrightarrow> ps \<noteq> [] \<Longrightarrow> lex rest = Some ts \<Longrightarrow> delim rest \<Longrightarrow> spaces gap \<Longrightarrow>
     spaces ind \<Longrightarrow> list_all is_json_ws w \<Longrightarrow>
     ser_members gap ind ps \<noteq> [] \<and>
     lex (join (0x2C # w) (ser_members gap ind ps) @ rest) = Some (toks_members ps @ ts)"
proof (induction gap ind v and gap ind xs and gap ind ps
    arbitrary: rest ts and rest ts w and rest ts w
    rule: ser_ser_elems_ser_members.induct)
  case (1 gap ind)
  then show ?case by simp
next
  case (2 gap ind)
  then show ?case by (simp add: lex_literals)
next
  case (3 gap ind b)
  then show ?case by (simp add: lex_literals)
next
  case (4 gap ind x)
  then have "json_num x" by simp
  then have "is_finite x" by (cases x) simp_all
  with 4 \<open>json_num x\<close> show ?case by (simp add: lex_number)
next
  case (5 gap ind s)
  then show ?case by (simp add: lex_string)
next
  case (6 gap ind xs)
  show ?case
  proof (cases "xs = []")
    case True
    with 6 show ?thesis by (simp add: wrap_empty lex_punct)
  next
    case False
    from "6.prems" have j: "jsonable_elems xs" by simp
    have "lex (wrap gap ind 0x5B 0x5D (ser_elems gap (ind @ gap) xs) @ rest)
        = Some ([TLBracket] @ toks_elems xs @ [TRBracket] @ ts)"
    proof (rule lex_bracketed)
      show "ser_elems gap (ind @ gap) xs \<noteq> []" using False by simp
      show "lex (join (0x2C # w) (ser_elems gap (ind @ gap) xs) @ rest') = Some (toks_elems xs @ ts')"
        if "list_all is_json_ws w" "delim rest'" "lex rest' = Some ts'" for w rest' ts'
        using "6.IH" [OF j False that(3,2) "6.prems"(4) spaces_append [OF "6.prems"(5,4)] that(1)] .
    qed (use "6.prems" in \<open>simp_all add: lex_punct\<close>)
    then show ?thesis by simp
  qed
next
  case (7 gap ind ps)
  show ?case
  proof (cases "ps = []")
    case True
    with 7 show ?thesis by (simp add: wrap_empty lex_punct)
  next
    case False
    from "7.prems" have j: "jsonable_members ps" by simp
    note IH = "7.IH" [OF j False _ _ "7.prems"(4) spaces_append [OF "7.prems"(5,4)]]
    have "lex (wrap gap ind 0x7B 0x7D (ser_members gap (ind @ gap) ps) @ rest)
        = Some ([TLBrace] @ toks_members ps @ [TRBrace] @ ts)"
    proof (rule lex_bracketed)
      show "ser_members gap (ind @ gap) ps \<noteq> []"
        using IH [of "[]" "[]" "[]"] by simp
      show "lex (join (0x2C # w) (ser_members gap (ind @ gap) ps) @ rest') = Some (toks_members ps @ ts')"
        if "list_all is_json_ws w" "delim rest'" "lex rest' = Some ts'" for w rest' ts'
        using IH [OF that(3,2,1)] by simp
    qed (use "7.prems" in \<open>simp_all add: lex_punct\<close>)
    then show ?thesis by simp
  qed
next
  case (8 gap ind)
  then show ?case by simp
next
  case (9 gap ind x xs)
  from "9.prems" have jx: "jsonable x" and jxs: "jsonable_elems xs" by simp_all
  show ?case
  proof (cases "xs = []")
    case True
    from "9.IH"(1) [OF jx "9.prems"(3,4,5,6)] obtain t
      where "ser gap ind x = Some t" and "lex (t @ rest) = Some (toks x @ ts)" by blast
    with True show ?thesis by simp
  next
    case False
    let ?tail = "join (0x2C # w) (ser_elems gap ind xs) @ rest"
    have tl: "lex ?tail = Some (toks_elems xs @ ts)"
      by (rule "9.IH"(2) [OF jxs False "9.prems"(3,4,5,6,7)])
    have sep: "lex ((0x2C # w) @ ?tail) = Some (TComma # toks_elems xs @ ts)"
      by (simp add: lex_punct lex_wss [OF "9.prems"(7)] tl)
    from "9.IH"(1) [OF jx sep _ "9.prems"(5,6)] obtain t
      where "ser gap ind x = Some t"
        and "lex (t @ (0x2C # w) @ ?tail) = Some (toks x @ TComma # toks_elems xs @ ts)" by auto
    with False show ?thesis by (simp add: join_Cons)
  qed
next
  case (10 gap ind)
  then show ?case by simp
next
  case (11 gap ind p ps)
  from "11.prems" have jv: "jsonable (snd p)" and jps: "jsonable_members ps" by simp_all
  have colon: "lex (QuoteJSONString (fst p) @ [0x3A] @ (if gap = [] then [] else [0x20]) @ s)
      = map_option (\<lambda>l. TStr (fst p) # TColon # l) (lex s)" for s
    by (simp add: lex_string lex_punct lex_space option.map_comp comp_def)
  show ?case
  proof (cases "ps = []")
    case True
    from "11.IH"(1) [OF jv "11.prems"(3,4,5,6)] obtain t
      where t: "ser gap ind (snd p) = Some t" and l: "lex (t @ rest) = Some (toks (snd p) @ ts)"
      by blast
    from colon [of "t @ rest"] l True t show ?thesis by simp
  next
    case False
    from "11.IH"(1) [OF jv, of "[]" "[]"] "11.prems"(5,6) obtain t0
      where t0: "ser gap ind (snd p) = Some t0" by auto
    let ?tail = "join (0x2C # w) (ser_members gap ind ps) @ rest"
    from "11.IH"(3) [OF t0 jps False "11.prems"(3,4,5,6,7)]
    have ne: "ser_members gap ind ps \<noteq> []" and tl: "lex ?tail = Some (toks_members ps @ ts)"
      by simp_all
    have sep: "lex ((0x2C # w) @ ?tail) = Some (TComma # toks_members ps @ ts)"
      by (simp add: lex_punct lex_wss [OF "11.prems"(7)] tl)
    from "11.IH"(1) [OF jv sep _ "11.prems"(5,6)] t0
    have l: "lex (t0 @ (0x2C # w) @ ?tail) = Some (toks (snd p) @ TComma # toks_members ps @ ts)"
      by auto
    from colon [of "t0 @ (0x2C # w) @ ?tail"] l False t0 ne show ?thesis
      by (simp add: join_Cons)
  qed
qed

lemma stringify_parse:
  assumes "jsonable v"
  shows "\<exists>t. JSON_stringify n v = Some t \<and> JSON_parse t = Some v"
proof -
  have sp: "spaces (replicate (min 10 n) 0x20)" "spaces []"
    by (simp_all add: spaces_def list_all_iff)
  from lex_ser [OF assms, of "[]" "[]" "replicate (min 10 n) 0x20" "[]"] sp
  obtain t where t: "ser (replicate (min 10 n) 0x20) [] v = Some t" and l: "lex t = Some (toks v)"
    by auto
  from l parse_toks_top [OF assms] have "JSON_parse t = Some v"
    by (simp add: JSON_parse_def)
  with t show ?thesis by (simp add: JSON_stringify_def)
qed

subsection \<open>Export, then import\<close>

lemma parseFloat_empty: "parseFloat [] = NaN"
  by (simp add: parseFloat_def js_def)

lemma newEvent_blank_lat: "newEvent 1704067200000 blank_lat_form = launch_record (JNum NaN)"
  by (simp add: newEvent_def form_fields_def location_of_def end_of_def launch_form_def
      blank_lat_form_def parseFloat_0 parseFloat_empty put_all_def launch_record_def)

lemma nan_app_items: "items nan_app = [launch_record (JNum NaN)]"
  by (simp add: nan_app_def add_event_def handleAddEvent_def newEvent_blank_lat)
    (simp add: launch_record_def obj_get_def)

lemma reachable_nan_app: "reachable nan_app"
  unfolding nan_app_def by (intro r_add r_init) simp

lemma ser_launch_record:
  "ser gap ind (JArr [launch_record (JNum NaN)]) = ser gap ind (JArr [launch_record JNull])"
  by (simp add: launch_record_def)

lemma jsonable_launch_record: "jsonable (launch_record JNull)"
  by (simp add: launch_record_def)

lemma import_nan_export:
  "items (handleImport (Some (export_text nan_app)) nan_app) = [launch_record JNull]"
proof -
  have j: "jsonable (JArr [launch_record JNull])"
    using jsonable_launch_record by simp
  from stringify_parse [OF j, of 2] obtain t
    where t: "JSON_stringify 2 (JArr [launch_record JNull]) = Some t"
      and p: "JSON_parse t = Some (JArr [launch_record JNull])" by blast
  from t have "export_text nan_app = t"
    by (simp add: export_text_def nan_app_items JSON_stringify_def ser_launch_record to_text_def
        del: ser.simps)
  with p show ?thesis by (simp add: handleImport_def)
qed

text \<open>
  The claim C1 says that export followed by import gives the store back, whatever it
  holds. The forms do not check the coordinates: an empty latitude field is stored as
  \<^verbatim>\<open>parseFloat("") = NaN\<close>, which the export writes as \<^verbatim>\<open>null\<close>. After adding the Launch form
  with the latitude left empty, export and import give a record whose latitude is
  \<^verbatim>\<open>null\<close>, which is not the record of the store.
\<close>

theorem export_import_loses_nan:
  "reachable nan_app
   \<and> items nan_app = [launch_record (JNum NaN)]
   \<and> items (handleImport (Some (export_text nan_app)) nan_app) = [launch_record JNull]
   \<and> set (items (handleImport (Some (export_text nan_app)) nan_app)) \<noteq> set (items nan_app)"
  by (simp add: reachable_nan_app nan_app_items import_nan_export) (simp add: launch_record_def)

text \<open>
  C1, amended. For every store whose records hold only values that JSON denotes (no
  \<^verbatim>\<open>NaN\<close>, infinity, negative zero or \<^verbatim>\<open>undefined\<close>), the document that \<^verbatim>\<open>handleExport\<close>
  offers is read back by \<^verbatim>\<open>JSON.parse\<close> as the array of the store's records. Importing
  it, into the same application or into any other, raises no alert and sets \<^verbatim>\<open>items\<close> to
  the same records, field for field and in the same order; after the render these are
  the records of the store, with an id written by the timeline into those that had
  none, so the very same records when each has an id.
\<close>

theorem export_import_roundtrip:
  assumes "jsonable_elems (items s)"
  shows "last (downloads (handleExport s)) = export_text s
         \<and> JSON_parse (export_text s) = Some (JArr (items s))
         \<and> handleImport (Some (export_text s)) s' = s'\<lparr>items := items s\<rparr>
         \<and> items (handleImport (Some (export_text s)) s') = items s
         \<and> set (items (handleImport (Some (export_text s)) s')) = set (items s)
         \<and> alerts (import_file r (Some (export_text s)) s') = alerts s'
         \<and> items (import_file (Returns gen) (Some (export_text s)) s')
             = write_ids gen 0 (items s)
         \<and> (list_all (\<lambda>x. \<not> lacks_id x) (items s) \<longrightarrow>
              items (import_file (Returns gen) (Some (export_text s)) s') = items s)"
proof -
  from assms have j: "jsonable (JArr (items s))" by simp
  from stringify_parse [OF j, of 2] obtain t
    where t: "JSON_stringify 2 (JArr (items s)) = Some t"
      and p: "JSON_parse t = Some (JArr (items s))" by blast
  from t have "export_text s = t" by (simp add: export_text_def to_text_def)
  with p show ?thesis
    by (simp add: handleImport_def import_file_def handleExport_def write_ids_same)
qed

theorem export_import_roundtrip_witness:
  "items launched_app = [newEvent 1704067200000 launch_form]
   \<and> jsonable (newEvent 1704067200000 launch_form)
   \<and> JSON_parse (export_text launched_app) = Some (JArr [newEvent 1704067200000 launch_form])
   \<and> items (handleImport (Some (export_text launched_app)) empty_app)
       = [newEvent 1704067200000 launch_form]
   \<and> alerts (import_file (Returns sample_ids) (Some (export_text launched_app)) empty_app) = []
   \<and> items (import_file (Returns sample_ids) (Some (export_text launched_app)) empty_app)
       = [newEvent 1704067200000 launch_form]"
proof -
  have j: "jsonable (newEvent 1704067200000 launch_form)"
    unfolding newEvent_launch by simp
  then have h: "jsonable_elems (items launched_app)"
    by (simp add: launched_app_fields)
  have l: "list_all (\<lambda>x. \<not> lacks_id x) (items launched_app)"
    by (simp add: launched_app_fields has_id_not_lacks newEvent_has_id)
  from j l export_import_roundtrip [OF h, of empty_app "Returns sample_ids" sample_ids]
  show ?thesis
    by (simp add: launched_app_fields)
qed

end
